theory Spec2Isabelle
  imports Main
begin

section \<open>Data model of \<^verbatim>\<open>src/thread.ts\<close>\<close>

text \<open>
  A JavaScript string is modelled as a \<^typ>\<open>string\<close>: one list element per code unit, so
  that \<^verbatim>\<open>s.length\<close> is \<^term>\<open>length s\<close> and \<^verbatim>\<open>s.slice(0, n)\<close> is
  \<^term>\<open>take n s\<close>.
\<close>

record Content =
  text_c :: string
  images :: "string list"

record PostContent =
  text_p :: string
  mediaIds :: "string option list"

record ImageData =
  path :: string
  total_bytes :: nat
  media_type :: string
  media_data :: string

text \<open>
  Every \<^verbatim>\<open>throw new Error(...)\<close> of the source is a constructor, named after the error
  taxonomy of the specification and carrying what the message interpolates.
  \<^verbatim>\<open>ReadFailed\<close> is the exception of \<^verbatim>\<open>readFileSync\<close> on a missing file,
  \<^verbatim>\<open>TypeError\<close> the one of reading a property of \<^verbatim>\<open>undefined\<close>,
  \<^verbatim>\<open>UploadRejected\<close> and \<^verbatim>\<open>PostFailed\<close> the rejection of a request promise by the
  client (media endpoint, status endpoint).
\<close>

datatype error =
    FileNotFound string
  | ContentTooLong string
  | TooManyGifs string
  | TooManyImages string
  | ImageTooLarge string
  | UploadFailed string
  | UploadRejected
  | PostFailed
  | ReadFailed string
  | TypeError

section \<open>Strings\<close>

text \<open>\<^verbatim>\<open>s.startsWith(p)\<close>, used to read the delimiter and the markup at a position.\<close>

fun starts_with :: "string \<Rightarrow> string \<Rightarrow> bool" where
  "starts_with [] s = True"
| "starts_with (p # ps) [] = False"
| "starts_with (p # ps) (c # cs) = (p = c \<and> starts_with ps cs)"

text \<open>
  \<^verbatim>\<open>s.split(sep)\<close> for a non-empty separator: the pieces between the leftmost,
  non-overlapping occurrences of the separator, empty pieces included; the empty
  string gives one empty piece.
\<close>

function split :: "string \<Rightarrow> string \<Rightarrow> string list" where
  "split sep s =
     (if s = [] \<or> sep = [] then [s]
      else if starts_with sep s then [] # split sep (drop (length sep) s)
      else (case split sep (tl s) of
              [] \<Rightarrow> [[hd s]]
            | piece # pieces \<Rightarrow> (hd s # piece) # pieces))"
  by pat_completeness auto
termination
  by (relation "measure (\<lambda>(sep, s). length s)") auto

declare split.simps [simp del]

text \<open>\<^verbatim>\<open>pieces.join(sep)\<close>.\<close>

fun join_with :: "string \<Rightarrow> string list \<Rightarrow> string" where
  "join_with sep [] = []"
| "join_with sep [x] = x"
| "join_with sep (x # y # ys) = x @ sep @ join_with sep (y # ys)"

text \<open>
  The white space and line terminators that \<^verbatim>\<open>String.prototype.trim\<close> strips, among
  the code units below 256: tab, line feed, vertical tab, form feed, carriage return,
  space and no-break space.
\<close>

definition is_space :: "char \<Rightarrow> bool" where
  "is_space c = (c \<in> set [CHR 0x09, CHR 0x0A, CHR 0x0B, CHR 0x0C, CHR 0x0D, CHR 0x20, CHR 0xA0])"

definition trim :: "string \<Rightarrow> string" where
  "trim s = rev (dropWhile is_space (rev (dropWhile is_space s)))"

text \<open>The decimal rendering of a number in a template literal.\<close>

fun show_nat :: "nat \<Rightarrow> string" where
  "show_nat n =
     (if n < 10 then [''0123456789'' ! n]
      else show_nat (n div 10) @ [''0123456789'' ! (n mod 10)])"

declare show_nat.simps [simp del]

section \<open>DocumentParser: \<^verbatim>\<open>makeBlocks\<close>\<close>

text \<open>
  \<^verbatim>\<open>file.split('---').map((text, i, arr) => `${i}/${arr.length - 1}\n\n${text.trim()}`)\<close>,
  on the text of the file.
\<close>

definition counter :: "nat \<Rightarrow> nat \<Rightarrow> string" where
  "counter i n = show_nat i @ ''/'' @ show_nat n"

definition label_block :: "nat \<Rightarrow> nat \<times> string \<Rightarrow> string" where
  "label_block n = (\<lambda>(i, txt). counter i n @ ''\<newline>\<newline>'' @ trim txt)"

definition makeBlocks_text :: "string \<Rightarrow> string list" where
  "makeBlocks_text doc =
     (let arr = split ''---'' doc
      in map (label_block (length arr - 1)) (enumerate 0 arr))"

section \<open>ContentExtractor: \<^verbatim>\<open>extractImage\<close>\<close>

text \<open>
  The two regular expressions \<^verbatim>\<open>/!\[.*?\]\(.+?\)/g\<close> and \<^verbatim>\<open>/!\[.*?\]\((.+?)\)/\<close>.
  The dot matches any code unit but a line terminator; both quantifiers are lazy, so
  the matcher takes the shortest alternative text after which \<^verbatim>\<open>](\<close>, a non-empty
  path and \<^verbatim>\<open>)\<close> follow, and then the shortest such path.
\<close>

definition dot :: "char \<Rightarrow> bool" where
  "dot c = (c \<noteq> CHR 0x0A \<and> c \<noteq> CHR 0x0D)"

text \<open>\<^verbatim>\<open>.+?\)\<close> after its first character: the captured path (reversed in \<open>acc\<close>) and the rest.\<close>

fun lazy_paren :: "string \<Rightarrow> string \<Rightarrow> (string \<times> string) option" where
  "lazy_paren acc [] = None"
| "lazy_paren acc (c # cs) =
     (if c = CHR '')'' then Some (rev acc, cs)
      else if dot c then lazy_paren (c # acc) cs
      else None)"

fun match_path :: "string \<Rightarrow> (string \<times> string) option" where
  "match_path [] = None"
| "match_path (c # cs) = (if dot c then lazy_paren [c] cs else None)"

text \<open>\<^verbatim>\<open>.*?\]\(.+?\)\<close>: the alternative text, the captured path and the rest.\<close>

fun match_alt :: "string \<Rightarrow> string \<Rightarrow> (string \<times> string \<times> string) option" where
  "match_alt acc s =
     (case (if starts_with '']('' s then match_path (drop 2 s) else None) of
        Some (p, rest) \<Rightarrow> Some (rev acc, p, rest)
      | None \<Rightarrow>
          (case s of
             [] \<Rightarrow> None
           | c # cs \<Rightarrow> if dot c then match_alt (c # acc) cs else None))"

declare match_alt.simps [simp del]

text \<open>The expression anchored at the start of \<open>s\<close>.\<close>

definition match_here :: "string \<Rightarrow> (string \<times> string \<times> string) option" where
  "match_here s = (if starts_with ''!['' s then match_alt [] (drop 2 s) else None)"

text \<open>
  \<^verbatim>\<open>block.match(imagesRegex) || []\<close>: the matched substrings, left to right, the search
  resuming after each match; \<^verbatim>\<open>block.replace(imagesRegex, '')\<close>: the text without them.
  The test on the lengths serves the termination proof only: \<open>match_all_unfold\<close> and
  \<open>remove_all_unfold\<close> below give the equations without it.
\<close>

function match_all :: "string \<Rightarrow> string list" where
  "match_all s =
     (if s = [] then []
      else (case match_here s of
              Some (alt, p, rest) \<Rightarrow>
                (if length rest < length s
                 then take (length s - length rest) s # match_all rest
                 else [])
            | None \<Rightarrow> match_all (tl s)))"
  by pat_completeness auto
termination
  by (relation "measure length") auto

function remove_all :: "string \<Rightarrow> string" where
  "remove_all s =
     (if s = [] then []
      else (case match_here s of
              Some (alt, p, rest) \<Rightarrow>
                (if length rest < length s then remove_all rest else s)
            | None \<Rightarrow> hd s # remove_all (tl s)))"
  by pat_completeness auto
termination
  by (relation "measure length") auto

declare match_all.simps [simp del] remove_all.simps [simp del]

text \<open>\<^verbatim>\<open>img.match(imagePathRegex)\<close>: the capture group of the first match, if any.\<close>

function capture_path :: "string \<Rightarrow> string option" where
  "capture_path s =
     (if s = [] then None
      else (case match_here s of
              Some (alt, p, rest) \<Rightarrow> Some p
            | None \<Rightarrow> capture_path (tl s)))"
  by pat_completeness auto
termination
  by (relation "measure length") auto

declare capture_path.simps [simp del]

text \<open>
  Node's \<^verbatim>\<open>path\<close> module (POSIX). \<^verbatim>\<open>normalizeString\<close> walks the segments between
  slashes: empty and \<^verbatim>\<open>.\<close> segments are dropped, \<^verbatim>\<open>..\<close> removes the segment before
  it (or is kept, when that is allowed and there is none to remove).
\<close>

definition norm_step :: "bool \<Rightarrow> string list \<Rightarrow> string \<Rightarrow> string list" where
  "norm_step allowAboveRoot res seg =
     (if seg = [] \<or> seg = ''.'' then res
      else if seg = ''..'' then
        (if res \<noteq> [] \<and> last res \<noteq> ''..'' then butlast res
         else if allowAboveRoot then res @ [''..'']
         else res)
      else res @ [seg])"

definition normalizeString :: "string \<Rightarrow> bool \<Rightarrow> string" where
  "normalizeString p allowAboveRoot =
     join_with ''/'' (foldl (norm_step allowAboveRoot) [] (split ''/'' p))"

definition normalize :: "string \<Rightarrow> string" where
  "normalize p =
     (if p = [] then ''.''
      else
        (let isAbsolute = (hd p = CHR ''/'');
             trailingSeparator = (last p = CHR ''/'');
             q = normalizeString p (\<not> isAbsolute)
         in if q = [] then (if isAbsolute then ''/'' else if trailingSeparator then ''./'' else ''.'')
            else (if isAbsolute then ''/'' else []) @ q @ (if trailingSeparator then ''/'' else [])))"

text \<open>\<^verbatim>\<open>join(a, b)\<close>: the non-empty arguments joined by a slash, normalised.\<close>

definition path_join :: "string \<Rightarrow> string \<Rightarrow> string" where
  "path_join a b =
     (let joined = join_with ''/'' (filter (\<lambda>x. x \<noteq> []) [a, b])
      in if joined = [] then ''.'' else normalize joined)"

text \<open>
  \<^verbatim>\<open>extname(p)\<close>: from the last dot of the last path component (trailing slashes
  ignored) to its end; empty when that component has no dot, starts with its only
  dot, or is \<^verbatim>\<open>..\<close>.
\<close>

definition last_component :: "string \<Rightarrow> string" where
  "last_component p =
     rev (takeWhile (\<lambda>c. c \<noteq> CHR ''/'') (dropWhile (\<lambda>c. c = CHR ''/'') (rev p)))"

definition extname :: "string \<Rightarrow> string" where
  "extname p =
     (let b = last_component p;
          ext = rev (takeWhile (\<lambda>c. c \<noteq> CHR ''.'') (rev b))
      in if CHR ''.'' \<notin> set b then []
         else if Suc (length ext) = length b then []
         else if b = ''..'' then []
         else CHR ''.'' # ext)"

text \<open>
  \<^verbatim>\<open>extractImage({ blocks, filename })\<close>. The argument \<open>dir\<close> is
  \<^verbatim>\<open>resolve(dirname(filename))\<close>, which depends on the working directory of the
  process. An image whose second match gave \<^verbatim>\<open>null\<close> would raise in the source;
  \<open>capture_path_match_all\<close> and \<open>image_paths_length\<close> below show that there is none.
\<close>

definition image_paths :: "string \<Rightarrow> string \<Rightarrow> string list" where
  "image_paths dir block =
     List.map_filter (\<lambda>img. map_option (path_join dir) (capture_path img)) (match_all block)"

definition extractImage :: "string list \<Rightarrow> string \<Rightarrow> Content list" where
  "extractImage blocks dir =
     map (\<lambda>block. \<lparr> text_c = remove_all block, images = image_paths dir block \<rparr>) blocks"

section \<open>Validator\<close>

text \<open>\<^verbatim>\<open>xs.forEach(f)\<close> with a callback that may throw: the first exception, if any.\<close>

fun for_each :: "('a \<Rightarrow> error option) \<Rightarrow> 'a list \<Rightarrow> error option" where
  "for_each f [] = None"
| "for_each f (x # xs) = (case f x of Some e \<Rightarrow> Some e | None \<Rightarrow> for_each f xs)"

text \<open>\<^verbatim>\<open>xs.map(f)\<close> with a callback that may throw.\<close>

fun map_throwing :: "('a \<Rightarrow> error + 'b) \<Rightarrow> 'a list \<Rightarrow> error + 'b list" where
  "map_throwing f [] = Inr []"
| "map_throwing f (x # xs) =
     (case f x of
        Inl e \<Rightarrow> Inl e
      | Inr y \<Rightarrow> (case map_throwing f xs of Inl e \<Rightarrow> Inl e | Inr ys \<Rightarrow> Inr (y # ys)))"

definition lint_block :: "string \<Rightarrow> error option" where
  "lint_block block =
     (if length block > 280 then Some (ContentTooLong (take 280 block)) else None)"

definition lint :: "string list \<Rightarrow> error option" where
  "lint blocks = for_each lint_block blocks"

definition checkImage :: "Content \<Rightarrow> string \<Rightarrow> error option" where
  "checkImage content p =
     (let ext = drop 1 (extname p)
      in if ext = ''gif''
         then (if length (images content) > 1 then Some (TooManyGifs (text_c content)) else None)
         else (if length (images content) > 4 then Some (TooManyImages (text_c content)) else None))"

definition checkContent :: "Content \<Rightarrow> error option" where
  "checkContent content = for_each (checkImage content) (images content)"

definition checkImageNumberPerPost :: "Content list \<Rightarrow> error option" where
  "checkImageNumberPerPost contents = for_each checkContent contents"

definition checkImageSize :: "ImageData \<Rightarrow> error option" where
  "checkImageSize img =
     (if total_bytes img > 5242880 then Some (ImageTooLarge (path img)) else None)"

section \<open>The file system and the operator\<close>

text \<open>
  What the command observes of its environment: whether a profile is active, the
  entries of the file system (of a file: its byte length, its text as UTF-8 and its
  bytes in base64), the absolute directory of a file name, and the operator's answer
  to the confirmation prompt. The three observations of a file are independent
  fields; the examples below give short stand-ins for the base64 payloads.
\<close>

record file_data =
  byte_length :: nat
  utf8 :: string
  base64 :: string

datatype entry = Directory | File file_data

record env =
  active_profile :: bool
  files :: "string \<Rightarrow> entry option"
  resolve_dirname :: "string \<Rightarrow> string"
  answer :: string

definition checkFileExists :: "env \<Rightarrow> string \<Rightarrow> error option" where
  "checkFileExists e filename =
     (if files e filename = None then Some (FileNotFound filename) else None)"

definition readFileSync :: "env \<Rightarrow> string \<Rightarrow> error + file_data" where
  "readFileSync e filename =
     (case files e filename of Some (File f) \<Rightarrow> Inr f | _ \<Rightarrow> Inl (ReadFailed filename))"

definition makeBlocks :: "env \<Rightarrow> string \<Rightarrow> error + string list" where
  "makeBlocks e filename =
     (case readFileSync e filename of
        Inl err \<Rightarrow> Inl err
      | Inr f \<Rightarrow> Inr (makeBlocks_text (utf8 f)))"

definition getImagesData :: "env \<Rightarrow> string \<Rightarrow> error + ImageData" where
  "getImagesData e p =
     (case readFileSync e p of
        Inl err \<Rightarrow> Inl err
      | Inr f \<Rightarrow>
          Inr \<lparr> path = p, total_bytes = byte_length f,
                media_type = ''image/'' @ drop 1 (extname p),
                media_data = base64 f \<rparr>)"

text \<open>\<^verbatim>\<open>arr.indexOf(x)\<close> and \<^verbatim>\<open>arr.filter((x, i, arr) => arr.indexOf(x) === i)\<close>.\<close>

fun indexOf :: "'a list \<Rightarrow> 'a \<Rightarrow> nat option" where
  "indexOf [] x = None"
| "indexOf (y # ys) x = (if y = x then Some 0 else map_option Suc (indexOf ys x))"

definition first_occurrences :: "'a list \<Rightarrow> 'a list" where
  "first_occurrences arr =
     map snd (filter (\<lambda>(i, x). indexOf arr x = Some i) (enumerate 0 arr))"

section \<open>SocialClient\<close>

text \<open>
  The requests the program sends with \<^verbatim>\<open>post('media/upload', ...)\<close> and
  \<^verbatim>\<open>post('statuses/update', ...)\<close>, with their parameters in the order of the source;
  the last parameter of \<^verbatim>\<open>StatusUpdate\<close> is \<^verbatim>\<open>in_reply_to_status_id\<close>, absent from
  the request of index 0. The program sends no other request.
\<close>

datatype call =
    MediaInit nat string
  | MediaAppend string string nat
  | MediaFinalize string
  | StatusUpdate string string "string option"

text \<open>The fields the program reads of a response.\<close>

record response =
  id_str :: string
  media_id_string :: string
  error_field :: "string option"

text \<open>
  The remote service: its answer to a request may depend on every request sent
  before. \<open>None\<close> is a rejected promise.
\<close>

type_synonym server = "call list \<Rightarrow> call \<Rightarrow> response option"

text \<open>\<^verbatim>\<open>if (finalizeResponse.error)\<close>: an absent field and the empty string are falsy.\<close>

definition truthy :: "string option \<Rightarrow> bool" where
  "truthy v = (case v of None \<Rightarrow> False | Some s \<Rightarrow> s \<noteq> [])"

section \<open>MediaUploader: \<^verbatim>\<open>uploadImages\<close>\<close>

text \<open>
  \<^verbatim>\<open>Promise.all(data.map(async imgData => ...))\<close>. Every callback runs at once up to its
  first \<^verbatim>\<open>await\<close>, so the INIT requests leave in the order of \<open>data\<close>; from then on a
  pipeline moves when the response it awaits arrives, and the order of arrival is the
  network's. A pipeline is the state of one callback: the response it awaits, or how
  it ended.
\<close>

datatype pipe =
    AwaitInit ImageData "response option"
  | AwaitAppend ImageData string "response option"
  | AwaitFinalize ImageData string "response option"
  | Done ImageData string
  | Failed ImageData error

record uploaded =
  path_u :: string
  mediaId :: string

record upload_state =
  pipes :: "pipe list"
  sent :: "call list"
  rejection :: "error option"

definition launch :: "server \<Rightarrow> upload_state \<Rightarrow> ImageData \<Rightarrow> upload_state" where
  "launch srv st d =
     (let c = MediaInit (total_bytes d) (media_type d)
      in st \<lparr> pipes := pipes st @ [AwaitInit d (srv (sent st) c)], sent := sent st @ [c] \<rparr>)"

text \<open>
  A callback that throws: \<^verbatim>\<open>Promise.all\<close> rejects with the first exception and keeps
  it; the other callbacks are not cancelled.
\<close>

definition fail :: "nat \<Rightarrow> ImageData \<Rightarrow> error \<Rightarrow> upload_state \<Rightarrow> upload_state" where
  "fail i d e st =
     st \<lparr> pipes := (pipes st)[i := Failed d e],
          rejection := (case rejection st of None \<Rightarrow> Some e | Some e0 \<Rightarrow> Some e0) \<rparr>"

definition advance :: "nat \<Rightarrow> pipe \<Rightarrow> call \<Rightarrow> upload_state \<Rightarrow> upload_state" where
  "advance i p c st =
     st \<lparr> pipes := (pipes st)[i := p], sent := sent st @ [c] \<rparr>"

text \<open>The response awaited by pipeline \<open>i\<close> arrives; a settled pipeline no longer moves.\<close>

definition deliver :: "server \<Rightarrow> upload_state \<Rightarrow> nat \<Rightarrow> upload_state" where
  "deliver srv st i =
     (if i < length (pipes st) then
        (case pipes st ! i of
           AwaitInit d None \<Rightarrow> fail i d UploadRejected st
         | AwaitInit d (Some initResponse) \<Rightarrow>
             (let m = media_id_string initResponse; c = MediaAppend m (media_data d) 0
              in advance i (AwaitAppend d m (srv (sent st) c)) c st)
         | AwaitAppend d m None \<Rightarrow> fail i d UploadRejected st
         | AwaitAppend d m (Some r) \<Rightarrow>
             (let c = MediaFinalize m
              in advance i (AwaitFinalize d m (srv (sent st) c)) c st)
         | AwaitFinalize d m None \<Rightarrow> fail i d UploadRejected st
         | AwaitFinalize d m (Some finalizeResponse) \<Rightarrow>
             (if truthy (error_field finalizeResponse)
              then fail i d (UploadFailed (case error_field finalizeResponse of Some msg \<Rightarrow> msg | None \<Rightarrow> [])) st
              else st \<lparr> pipes := (pipes st)[i := Done d (media_id_string finalizeResponse)] \<rparr>)
         | Done d m \<Rightarrow> st
         | Failed d e \<Rightarrow> st)
      else st)"

text \<open>
  The order of arrival is the schedule \<open>sched\<close>, a list of pipeline numbers, followed by
  three arrivals for each pipeline in turn, so that every pipeline settles whatever the
  schedule; for the runs of \<open>n\<close> pipelines, every order of arrival is a schedule.
\<close>

definition drain :: "nat \<Rightarrow> nat list" where
  "drain n = concat (map (\<lambda>i. [i, i, i]) [0..<n])"

definition upload_run :: "server \<Rightarrow> call list \<Rightarrow> nat list \<Rightarrow> ImageData list \<Rightarrow> upload_state" where
  "upload_run srv log sched data =
     foldl (deliver srv)
       (foldl (launch srv) \<lparr> pipes = [], sent = log, rejection = None \<rparr> data)
       (sched @ drain (length data))"

fun result_of :: "pipe \<Rightarrow> uploaded option" where
  "result_of (Done d m) = Some \<lparr> path_u = path d, mediaId = m \<rparr>"
| "result_of _ = None"

definition uploadImages ::
  "server \<Rightarrow> call list \<Rightarrow> nat list \<Rightarrow> ImageData list \<Rightarrow> (error + uploaded list) \<times> call list" where
  "uploadImages srv log sched data =
     (let st = upload_run srv log sched data
      in (case rejection st of
            Some e \<Rightarrow> Inl e
          | None \<Rightarrow> Inr (List.map_filter result_of (pipes st)),
          sent st))"

section \<open>ThreadPoster: \<^verbatim>\<open>post\<close>\<close>

text \<open>\<^verbatim>\<open>mediaIds.join(',')\<close>: an \<^verbatim>\<open>undefined\<close> element is joined as the empty string.\<close>

definition media_ids :: "PostContent \<Rightarrow> string" where
  "media_ids c = join_with '','' (map (\<lambda>m. case m of None \<Rightarrow> [] | Some x \<Rightarrow> x) (mediaIds c))"

text \<open>
  \<^verbatim>\<open>post({ tw, index, contents })\<close>. The object literal reads \<^verbatim>\<open>contents[index]\<close>
  before it awaits the recursive call, so an index out of range raises at once.
  The result is paired with the requests sent so far.
\<close>

fun post :: "server \<Rightarrow> call list \<Rightarrow> nat \<Rightarrow> PostContent list \<Rightarrow> (error + response) \<times> call list" where
  "post srv log 0 contents =
     (if 0 < length contents then
        (let c = StatusUpdate (text_p (contents ! 0)) (media_ids (contents ! 0)) None
         in (case srv log c of None \<Rightarrow> Inl PostFailed | Some r \<Rightarrow> Inr r, log @ [c]))
      else (Inl TypeError, log))"
| "post srv log (Suc n) contents =
     (if Suc n < length contents then
        (case post srv log n contents of
           (Inl e, log') \<Rightarrow> (Inl e, log')
         | (Inr previous, log') \<Rightarrow>
             (let c = StatusUpdate (text_p (contents ! Suc n)) (media_ids (contents ! Suc n))
                        (Some (id_str previous))
              in (case srv log' c of None \<Rightarrow> Inl PostFailed | Some r \<Rightarrow> Inr r, log' @ [c])))
      else (Inl TypeError, log))"

section \<open>The \<^verbatim>\<open>post\<close> command\<close>

datatype outcome = NoProfile | Threw error | Declined | Completed response

text \<open>Lines 98 to 100: the image paths of all contents, each once, at its first place.\<close>

definition imagePaths :: "Content list \<Rightarrow> string list" where
  "imagePaths contents = first_occurrences (foldl (\<lambda>acc b. acc @ images b) [] contents)"

text \<open>Lines 114 to 120.\<close>

definition postContent :: "uploaded list \<Rightarrow> Content \<Rightarrow> PostContent" where
  "postContent pathAndImageId content =
     \<lparr> text_p = text_c content,
       mediaIds = map (\<lambda>p. map_option mediaId (find (\<lambda>img. p = path_u img) pathAndImageId))
                    (images content) \<rparr>"

text \<open>
  Lines 89 to 110, before the first request: the profile, the document, the checks
  and the prompt. An answer other than \<^verbatim>\<open>y\<close> or \<^verbatim>\<open>Y\<close> closes the prompt, whose
  \<^verbatim>\<open>close\<close> handler ends the process.
\<close>

definition prepare :: "env \<Rightarrow> string \<Rightarrow> outcome + Content list \<times> ImageData list" where
  "prepare e filename =
     (if \<not> active_profile e then Inl NoProfile
      else case checkFileExists e filename of Some err \<Rightarrow> Inl (Threw err) | None \<Rightarrow>
        (case makeBlocks e filename of Inl err \<Rightarrow> Inl (Threw err) | Inr blocks \<Rightarrow>
          (let contents = extractImage blocks (resolve_dirname e filename)
           in case lint (map text_c contents) of Some err \<Rightarrow> Inl (Threw err) | None \<Rightarrow>
             (case for_each (checkFileExists e) (imagePaths contents) of
                Some err \<Rightarrow> Inl (Threw err) | None \<Rightarrow>
               (case checkImageNumberPerPost contents of Some err \<Rightarrow> Inl (Threw err) | None \<Rightarrow>
                 (case map_throwing (getImagesData e) (imagePaths contents) of
                    Inl err \<Rightarrow> Inl (Threw err) | Inr imagesData \<Rightarrow>
                   (case for_each checkImageSize imagesData of
                      Some err \<Rightarrow> Inl (Threw err) | None \<Rightarrow>
                     (if answer e \<noteq> ''y'' \<and> answer e \<noteq> ''Y'' then Inl Declined
                      else Inr (contents, imagesData)))))))))"

text \<open>Lines 112 to 126: the uploads, then the thread.\<close>

definition publish ::
  "server \<Rightarrow> nat list \<Rightarrow> Content list \<Rightarrow> ImageData list \<Rightarrow> outcome \<times> call list" where
  "publish srv sched contents imagesData =
     (case uploadImages srv [] sched imagesData of
        (Inl err, log) \<Rightarrow> (Threw err, log)
      | (Inr pathAndImageId, log) \<Rightarrow>
          (let postContents = map (postContent pathAndImageId) contents
           in case post srv log (length postContents - 1) postContents of
                (Inl err, log') \<Rightarrow> (Threw err, log')
              | (Inr r, log') \<Rightarrow> (Completed r, log')))"

definition post_command :: "env \<Rightarrow> server \<Rightarrow> nat list \<Rightarrow> string \<Rightarrow> outcome \<times> call list" where
  "post_command e srv sched filename =
     (case prepare e filename of
        Inl out \<Rightarrow> (out, [])
      | Inr (contents, imagesData) \<Rightarrow> publish srv sched contents imagesData)"

section \<open>Notions used in the statements\<close>

text \<open>The image takes the \<^verbatim>\<open>case 'gif'\<close> branch of \<^verbatim>\<open>checkImageNumberPerPost\<close>.\<close>

definition gif_type :: "string \<Rightarrow> bool" where
  "gif_type p = (drop 1 (extname p) = ''gif'')"

text \<open>The extension \<^verbatim>\<open>gif\<close> in every casing but the lower case one.\<close>

definition other_casings :: "string list" where
  "other_casings = [''GIF'', ''GIf'', ''GiF'', ''Gif'', ''gIF'', ''gIf'', ''giF'']"

text \<open>
  The request of index \<open>i\<close> of a thread, given the responses \<open>rs\<close> to the requests
  before it; the first \<open>k\<close> requests; and the service accepting them, answering the
  request of index \<open>i\<close> with \<open>rs ! i\<close>.
\<close>

definition status_call :: "PostContent list \<Rightarrow> response list \<Rightarrow> nat \<Rightarrow> call" where
  "status_call contents rs i =
     StatusUpdate (text_p (contents ! i)) (media_ids (contents ! i))
       (if i = 0 then None else Some (id_str (rs ! (i - 1))))"

definition calls_upto :: "PostContent list \<Rightarrow> response list \<Rightarrow> nat \<Rightarrow> call list" where
  "calls_upto contents rs k = map (status_call contents rs) [0..<k]"

definition accepted ::
  "server \<Rightarrow> call list \<Rightarrow> PostContent list \<Rightarrow> response list \<Rightarrow> nat \<Rightarrow> bool" where
  "accepted srv log contents rs k =
     (\<forall>i<k. srv (log @ calls_upto contents rs i) (status_call contents rs i) = Some (rs ! i))"

text \<open>
  An in-memory service for the examples: it accepts every request and numbers its
  ids by the count of requests before. \<open>reject_at k\<close> makes a service reject the
  request that comes after \<open>k\<close> others.
\<close>

definition fake_server :: server where
  "fake_server h c =
     Some \<lparr> id_str = ''p'' @ show_nat (length h),
            media_id_string = ''m'' @ show_nat (length h),
            error_field = None \<rparr>"

definition reject_at :: "nat \<Rightarrow> server \<Rightarrow> server" where
  "reject_at k srv h c = (if length h = k then None else srv h c)"

text \<open>
  The contents of a document, as the command builds them; a Content over the length
  limit; an image file over the size limit; a path that can be read as a file.
\<close>

definition document_contents :: "env \<Rightarrow> string \<Rightarrow> Content list" where
  "document_contents e filename =
     (case makeBlocks e filename of
        Inl err \<Rightarrow> []
      | Inr blocks \<Rightarrow> extractImage blocks (resolve_dirname e filename))"

definition too_long :: "Content \<Rightarrow> bool" where
  "too_long c = (length (text_c c) > 280)"

definition oversized :: "env \<Rightarrow> string \<Rightarrow> bool" where
  "oversized e p = (case files e p of Some (File f) \<Rightarrow> byte_length f > 5242880 | _ \<Rightarrow> False)"

definition readable :: "env \<Rightarrow> string \<Rightarrow> bool" where
  "readable e p = (case files e p of Some (File f) \<Rightarrow> True | _ \<Rightarrow> False)"

text \<open>
  Three environments for the examples: a document of 300 letters, a document with an
  image of 6,000,000 bytes, and a document with blocks surrounded by spaces.
\<close>

definition long_env :: env where
  "long_env =
     \<lparr> active_profile = True,
       files = (\<lambda>p. if p = ''long.md''
                     then Some (File \<lparr> byte_length = 300, utf8 = replicate 300 (CHR ''a''), base64 = [] \<rparr>)
                     else None),
       resolve_dirname = (\<lambda>p. ''/d''),
       answer = ''y'' \<rparr>"

definition big_env :: env where
  "big_env =
     \<lparr> active_profile = True,
       files = (\<lambda>p. if p = ''big.md''
                     then Some (File \<lparr> byte_length = 13, utf8 = ''![a](big.png)'', base64 = [] \<rparr>)
                     else if p = ''/d/big.png''
                     then Some (File \<lparr> byte_length = 6000000, utf8 = [], base64 = [] \<rparr>)
                     else None),
       resolve_dirname = (\<lambda>p. ''/d''),
       answer = ''y'' \<rparr>"

definition spaced_env :: env where
  "spaced_env =
     \<lparr> active_profile = True,
       files = (\<lambda>p. if p = ''spaced.md''
                     then Some (File \<lparr> byte_length = 7, utf8 = '' a ---b'', base64 = [] \<rparr>)
                     else None),
       resolve_dirname = (\<lambda>p. ''/d''),
       answer = ''y'' \<rparr>"

text \<open>
  Notions for the uploader: the kinds of requests; the image of a pipeline, the
  responses it still awaits at most, and whether it threw; and the invariants of a
  run: only media requests are sent, the rejection of \<^verbatim>\<open>Promise.all\<close> is the
  exception of a pipeline that threw, and, as long as none threw, the requests sent
  are one INIT for each pipeline, one APPEND for each pipeline past its INIT and
  one FINALIZE for each pipeline past its APPEND.
\<close>

fun is_media :: "call \<Rightarrow> bool" where
  "is_media (StatusUpdate t m r) = False"
| "is_media _ = True"

fun pipe_data :: "pipe \<Rightarrow> ImageData" where
  "pipe_data (AwaitInit d r) = d"
| "pipe_data (AwaitAppend d m r) = d"
| "pipe_data (AwaitFinalize d m r) = d"
| "pipe_data (Done d m) = d"
| "pipe_data (Failed d e) = d"

fun remaining :: "pipe \<Rightarrow> nat" where
  "remaining (AwaitInit d r) = 3"
| "remaining (AwaitAppend d m r) = 2"
| "remaining (AwaitFinalize d m r) = 1"
| "remaining (Done d m) = 0"
| "remaining (Failed d e) = 0"

fun failed :: "pipe \<Rightarrow> bool" where
  "failed (Failed d e) = True"
| "failed _ = False"

definition media_only :: "call list \<Rightarrow> upload_state \<Rightarrow> bool" where
  "media_only log st = (\<exists>cs. sent st = log @ cs \<and> (\<forall>c \<in> set cs. is_media c))"

definition rejection_ok :: "upload_state \<Rightarrow> bool" where
  "rejection_ok st =
     (case rejection st of
        None \<Rightarrow> (\<forall>j < length (pipes st). \<not> failed (pipes st ! j))
      | Some e \<Rightarrow> (\<exists>j < length (pipes st). \<exists>d. pipes st ! j = Failed d e))"

fun is_init :: "call \<Rightarrow> bool" where
  "is_init (MediaInit n t) = True"
| "is_init _ = False"

fun is_append :: "call \<Rightarrow> bool" where
  "is_append (MediaAppend m d k) = True"
| "is_append _ = False"

fun is_finalize :: "call \<Rightarrow> bool" where
  "is_finalize (MediaFinalize m) = True"
| "is_finalize _ = False"

definition appended :: "pipe \<Rightarrow> nat" where
  "appended p = (if remaining p \<le> 2 then 1 else 0)"

definition finalized :: "pipe \<Rightarrow> nat" where
  "finalized p = (if remaining p \<le> 1 then 1 else 0)"

definition counts_ok :: "call list \<Rightarrow> upload_state \<Rightarrow> bool" where
  "counts_ok log st =
     (rejection st = None \<longrightarrow>
        (\<exists>cs. sent st = log @ cs \<and>
              length (filter is_init cs) = length (pipes st) \<and>
              length (filter is_append cs) = sum_list (map appended (pipes st)) \<and>
              length (filter is_finalize cs) = sum_list (map finalized (pipes st))))"

definition init_only :: "call list \<Rightarrow> upload_state \<Rightarrow> bool" where
  "init_only log st = (\<exists>cs. sent st = log @ cs \<and> (\<forall>c \<in> set cs. is_init c))"

text \<open>
  Two more for the examples: a document whose two blocks show the same image, and a
  service whose finalize responses carry an error.
\<close>

definition shared_env :: env where
  "shared_env =
     \<lparr> active_profile = True,
       files = (\<lambda>p. if p = ''shared.md''
                     then Some (File \<lparr> byte_length = 31,
                                       utf8 = ''A ![x](a.png)---B ![y](./a.png)'', base64 = [] \<rparr>)
                     else if p = ''/d/a.png''
                     then Some (File \<lparr> byte_length = 3, utf8 = ''ABC'', base64 = ''QUJD'' \<rparr>)
                     else None),
       resolve_dirname = (\<lambda>p. ''/d''),
       answer = ''y'' \<rparr>"

definition failing_server :: server where
  "failing_server h c =
     (case c of
        MediaFinalize m \<Rightarrow>
          Some \<lparr> id_str = [], media_id_string = m, error_field = Some ''InvalidMedia'' \<rparr>
      | _ \<Rightarrow> fake_server h c)"

text \<open>
  For the example of the specification: an absolute directory as its segments, a
  segment that normalisation keeps, the document, an environment that holds it with
  its image of 1000 bytes, and a service that accepts every request without error.
\<close>

definition absolute :: "string list \<Rightarrow> string" where
  "absolute segs = concat (map (\<lambda>s. CHR ''/'' # s) segs)"

definition plain :: "string \<Rightarrow> bool" where
  "plain seg = (seg \<noteq> [] \<and> seg \<noteq> ''.'' \<and> seg \<noteq> ''..'' \<and> CHR ''/'' \<notin> set seg)"

definition example_doc :: string where
  "example_doc = ''Hello ![a](./img.png)\<newline>---\<newline>World''"

definition example_env :: env where
  "example_env =
     \<lparr> active_profile = True,
       files = (\<lambda>p. if p = ''thread.md''
                     then Some (File \<lparr> byte_length = 31, utf8 = example_doc, base64 = [] \<rparr>)
                     else if p = ''/home/u/thread/img.png''
                     then Some (File \<lparr> byte_length = 1000, utf8 = [], base64 = ''iVBORw=='' \<rparr>)
                     else None),
       resolve_dirname = (\<lambda>p. ''/home/u/thread''),
       answer = ''y'' \<rparr>"

definition accepts_all :: "server \<Rightarrow> bool" where
  "accepts_all srv = (\<forall>h c. \<exists>r. srv h c = Some r \<and> \<not> truthy (error_field r))"

text \<open>
  Where a media id comes from. \<open>sent_at log h c\<close>: the request \<open>c\<close> is in the log right
  after the requests \<open>h\<close>; \<open>answered\<close>: the service answered it there with \<open>r\<close>.
  \<open>origin\<close>: the requests a pipeline has sent and the responses it has had, by
  stage; a pipeline that is done has had its media id from the response to its
  FINALIZE, sent with the id of the response to its INIT.
\<close>

definition init_call :: "ImageData \<Rightarrow> call" where
  "init_call d = MediaInit (total_bytes d) (media_type d)"

definition append_call :: "string \<Rightarrow> ImageData \<Rightarrow> call" where
  "append_call m d = MediaAppend m (media_data d) 0"

definition sent_at :: "call list \<Rightarrow> call list \<Rightarrow> call \<Rightarrow> bool" where
  "sent_at log h c = (\<exists>t. log = h @ c # t)"

definition answered :: "server \<Rightarrow> call list \<Rightarrow> call \<Rightarrow> response \<Rightarrow> bool" where
  "answered srv log c r = (\<exists>h. sent_at log h c \<and> srv h c = Some r)"

fun origin :: "server \<Rightarrow> call list \<Rightarrow> pipe \<Rightarrow> bool" where
  "origin srv log (AwaitInit d resp) =
     (\<exists>h. sent_at log h (init_call d) \<and> resp = srv h (init_call d))"
| "origin srv log (AwaitAppend d m resp) =
     (\<exists>r1. answered srv log (init_call d) r1 \<and> m = media_id_string r1 \<and>
           (\<exists>h. sent_at log h (append_call m d) \<and> resp = srv h (append_call m d)))"
| "origin srv log (AwaitFinalize d m resp) =
     (\<exists>r1 r2. answered srv log (init_call d) r1 \<and> m = media_id_string r1 \<and>
              answered srv log (append_call m d) r2 \<and>
              (\<exists>h. sent_at log h (MediaFinalize m) \<and> resp = srv h (MediaFinalize m)))"
| "origin srv log (Done d m) =
     (\<exists>r1 r2 r3. answered srv log (init_call d) r1 \<and>
                 answered srv log (append_call (media_id_string r1) d) r2 \<and>
                 answered srv log (MediaFinalize (media_id_string r1)) r3 \<and>
                 \<not> truthy (error_field r3) \<and> m = media_id_string r3)"
| "origin srv log (Failed d e) = True"

definition origins :: "server \<Rightarrow> upload_state \<Rightarrow> bool" where
  "origins srv st = (\<forall>j < length (pipes st). origin srv (sent st) (pipes st ! j))"

text \<open>A document that is too long and shows an image that is too large.\<close>

definition both_env :: env where
  "both_env =
     \<lparr> active_profile = True,
       files = (\<lambda>p. if p = ''both.md''
                     then Some (File \<lparr> byte_length = 313,
                                       utf8 = ''![a](big.png)'' @ replicate 300 (CHR ''a''),
                                       base64 = [] \<rparr>)
                     else if p = ''/d/big.png''
                     then Some (File \<lparr> byte_length = 6000000, utf8 = [], base64 = [] \<rparr>)
                     else None),
       resolve_dirname = (\<lambda>p. ''/d''),
       answer = ''y'' \<rparr>"

section \<open>Properties of the validator\<close>

lemma show_nat_digits:
  "show_nat 0 = ''0''" "show_nat 1 = ''1''" "show_nat 2 = ''2''" "show_nat 3 = ''3''"
  "show_nat 4 = ''4''" "show_nat 5 = ''5''" "show_nat (Suc 0) = ''1''"
  by (simp_all add: show_nat.simps)

lemma for_each_None: "for_each f xs = None \<longleftrightarrow> (\<forall>x \<in> set xs. f x = None)"
  by (induction xs) (auto split: option.splits)

lemma takeWhile_rev_suffix:
  assumes "\<forall>x \<in> set s. P x" "\<not> P c"
  shows "rev (takeWhile P (rev (b @ c # s))) = s"
proof -
  have "takeWhile P (rev s @ c # rev b) = rev s @ takeWhile P (c # rev b)"
    using assms(1) by (intro takeWhile_append2) simp
  then show ?thesis using assms(2) by simp
qed

text \<open>
  A path that ends in a dot and a suffix free of dots and slashes has that suffix as
  its extension, or none (when the dot starts the last component).
\<close>

lemma extname_suffix:
  assumes "s \<noteq> []" "CHR ''.'' \<notin> set s" "CHR ''/'' \<notin> set s"
  shows "extname (q @ CHR ''.'' # s) = [] \<or> extname (q @ CHR ''.'' # s) = CHR ''.'' # s"
proof -
  have hd: "hd (rev s) \<noteq> CHR ''/''"
    using assms(1,3) by (metis hd_rev last_in_set)
  have dw: "dropWhile (\<lambda>c. c = CHR ''/'') (rev (q @ CHR ''.'' # s)) = rev s @ CHR ''.'' # rev q"
    using hd assms(1) by (cases "rev s") auto
  have tw: "takeWhile (\<lambda>c. c \<noteq> CHR ''/'') (rev s @ CHR ''.'' # rev q)
            = rev s @ CHR ''.'' # takeWhile (\<lambda>c. c \<noteq> CHR ''/'') (rev q)"
  proof -
    have "takeWhile (\<lambda>c. c \<noteq> CHR ''/'') (rev s @ CHR ''.'' # rev q)
            = rev s @ takeWhile (\<lambda>c. c \<noteq> CHR ''/'') (CHR ''.'' # rev q)"
      using assms(3) by (intro takeWhile_append2) auto
    then show ?thesis by simp
  qed
  define b where "b = rev (takeWhile (\<lambda>c. c \<noteq> CHR ''/'') (rev q))"
  have lc: "last_component (q @ CHR ''.'' # s) = b @ CHR ''.'' # s"
    unfolding last_component_def dw tw b_def by simp
  have ext: "rev (takeWhile (\<lambda>c. c \<noteq> CHR ''.'') (rev (b @ CHR ''.'' # s))) = s"
    using assms(2) by (intro takeWhile_rev_suffix) auto
  show ?thesis
    unfolding extname_def lc Let_def ext by simp
qed

lemma not_gif_suffix:
  assumes "s \<in> set other_casings"
  shows "\<not> gif_type (q @ ''.'' @ s)"
proof -
  have s: "s \<noteq> []" "CHR ''.'' \<notin> set s" "CHR ''/'' \<notin> set s" "s \<noteq> ''gif''"
    using assms by (auto simp: other_casings_def)
  from extname_suffix[OF s(1-3), of q] s(4) show ?thesis
    by (auto simp: gif_type_def)
qed

lemma for_each_no_gif:
  assumes "\<forall>p \<in> set ps. \<not> gif_type p"
  shows "for_each (checkImage c) ps =
    (if ps \<noteq> [] \<and> length (images c) > 4 then Some (TooManyImages (text_c c)) else None)"
  using assms by (induction ps) (auto simp: checkImage_def gif_type_def Let_def)

lemma for_each_many:
  assumes "length (images c) > 4"
  shows "for_each (checkImage c) ps =
    (case ps of [] \<Rightarrow> None
     | p # _ \<Rightarrow> if gif_type p then Some (TooManyGifs (text_c c)) else Some (TooManyImages (text_c c)))"
  using assms by (cases ps) (auto simp: checkImage_def gif_type_def Let_def)

lemma for_each_few:
  assumes "length (images c) \<le> 4"
  shows "for_each (checkImage c) ps =
    (if (\<exists>p \<in> set ps. gif_type p) \<and> length (images c) > 1 then Some (TooManyGifs (text_c c)) else None)"
  using assms by (induction ps) (auto simp: checkImage_def gif_type_def Let_def)

lemma extname_examples:
  "extname ''/d/a.png'' = ''.png''" "extname ''/d/b.png'' = ''.png''"
  "extname ''/d/c.png'' = ''.png''" "extname ''/d/d.png'' = ''.png''"
  "extname ''/d/e.gif'' = ''.gif''" "extname ''/d/a.GIF'' = ''.GIF''"
  "extname ''/d/b.Gif'' = ''.Gif''"
  by (simp_all add: extname_def last_component_def)

text \<open>
  C4, as stated, fails: a Content of five images whose last is a gif is rejected with
  the error of the four-images rule, the first image deciding, and not with the error
  of the gif rule.
\<close>

theorem media_mix_error_counterexample:
  "gif_type ''/d/e.gif'' \<and>
   checkContent \<lparr> text_c = ''t'',
       images = [''/d/a.png'', ''/d/b.png'', ''/d/c.png'', ''/d/d.png'', ''/d/e.gif''] \<rparr>
     = Some (TooManyImages ''t'')"
  by (simp add: gif_type_def checkContent_def checkImage_def extname_examples)

text \<open>
  C4, amended: a Content with a gif-type image is accepted if and only if it has
  exactly one image, and is rejected otherwise with \<^verbatim>\<open>TooManyGifs\<close>, unless it has
  more than four images and its first image is not a gif, when the error is
  \<^verbatim>\<open>TooManyImages\<close>; a Content with no gif-type image is accepted if and only if it has
  at most four images, else \<^verbatim>\<open>TooManyImages\<close>. The check of a document accepts
  exactly when it accepts every Content by itself.
\<close>

theorem media_mix_per_content:
  "checkContent c =
     (if \<exists>p \<in> set (images c). gif_type p then
        (if length (images c) = 1 then None
         else if length (images c) > 4 \<and> \<not> gif_type (hd (images c))
              then Some (TooManyImages (text_c c))
              else Some (TooManyGifs (text_c c)))
      else if length (images c) \<le> 4 then None else Some (TooManyImages (text_c c)))
   \<and> (checkImageNumberPerPost cs = None \<longleftrightarrow> (\<forall>c' \<in> set cs. checkContent c' = None))"
proof
  show "checkContent c =
     (if \<exists>p \<in> set (images c). gif_type p then
        (if length (images c) = 1 then None
         else if length (images c) > 4 \<and> \<not> gif_type (hd (images c))
              then Some (TooManyImages (text_c c))
              else Some (TooManyGifs (text_c c)))
      else if length (images c) \<le> 4 then None else Some (TooManyImages (text_c c)))"
  proof (cases "length (images c) > 4")
    case True
    then show ?thesis
      unfolding checkContent_def for_each_many[OF True]
      by (cases "images c") auto
  next
    case False
    then have le: "length (images c) \<le> 4" by simp
    show ?thesis
      unfolding checkContent_def for_each_few[OF le]
      using le by (cases "images c") auto
  qed
  show "checkImageNumberPerPost cs = None \<longleftrightarrow> (\<forall>c' \<in> set cs. checkContent c' = None)"
    by (simp add: checkImageNumberPerPost_def for_each_None)
qed

theorem media_mix_per_content_witness:
  "checkContent \<lparr> text_c = ''t'', images = [''/d/e.gif'', ''/d/a.png''] \<rparr> = Some (TooManyGifs ''t'')
   \<and> checkContent \<lparr> text_c = ''u'', images = [''/d/e.gif''] \<rparr> = None
   \<and> checkImageNumberPerPost [\<lparr> text_c = ''u'', images = [''/d/e.gif''] \<rparr>] = None"
  using media_mix_per_content [of "\<lparr> text_c = ''t'', images = [''/d/e.gif'', ''/d/a.png''] \<rparr>" "[]"]
        media_mix_per_content [of "\<lparr> text_c = ''u'', images = [''/d/e.gif''] \<rparr>"
                                  "[\<lparr> text_c = ''u'', images = [''/d/e.gif''] \<rparr>]"]
  by (simp add: gif_type_def extname_examples)

text \<open>
  C10: the extension is compared with \<^verbatim>\<open>gif\<close> exactly. A Content whose images end in
  \<^verbatim>\<open>.GIF\<close>, \<^verbatim>\<open>.Gif\<close> or another casing, or have any extension other than \<^verbatim>\<open>gif\<close>
  itself, is checked against the four-images rule only.
\<close>

theorem gif_extension_case_sensitive:
  assumes "\<forall>p \<in> set (images c).
             (\<exists>q s. s \<in> set other_casings \<and> p = q @ ''.'' @ s) \<or> drop 1 (extname p) \<noteq> ''gif''"
  shows "checkContent c =
           (if length (images c) > 4 then Some (TooManyImages (text_c c)) else None)"
proof -
  have "\<forall>p \<in> set (images c). \<not> gif_type p"
    using assms not_gif_suffix by (auto simp: gif_type_def)
  then show ?thesis
    unfolding checkContent_def by (simp add: for_each_no_gif)
qed

theorem gif_extension_case_sensitive_witness:
  "checkContent \<lparr> text_c = ''t'', images = [''/d/a.GIF'', ''/d/b.Gif''] \<rparr> = None"
proof -
  have a: "\<exists>q s. s \<in> set other_casings \<and> ''/d/a.GIF'' = q @ ''.'' @ s"
    by (rule exI [of _ "''/d/a''"], rule exI [of _ "''GIF''"]) (simp add: other_casings_def)
  have b: "\<exists>q s. s \<in> set other_casings \<and> ''/d/b.Gif'' = q @ ''.'' @ s"
    by (rule exI [of _ "''/d/b''"], rule exI [of _ "''Gif''"]) (simp add: other_casings_def)
  have "\<forall>p \<in> set (images \<lparr> text_c = ''t'', images = [''/d/a.GIF'', ''/d/b.Gif''] \<rparr>).
          (\<exists>q s. s \<in> set other_casings \<and> p = q @ ''.'' @ s) \<or> drop 1 (extname p) \<noteq> ''gif''"
    using a b by simp
  from gif_extension_case_sensitive [OF this] show ?thesis by simp
qed

section \<open>Properties of the matcher\<close>

text \<open>
  A match is shorter than the text it is found in, so the test on the lengths in
  \<open>match_all\<close> and \<open>remove_all\<close> always succeeds; and the matched substring, matched
  again by itself, gives the same capture, so the second match of \<^verbatim>\<open>extractImage\<close>
  never gives \<^verbatim>\<open>null\<close>.
\<close>

lemma starts_with_take:
  "starts_with p s \<Longrightarrow> length p \<le> n \<Longrightarrow> starts_with p (take n s)"
proof (induction p s arbitrary: n rule: starts_with.induct)
  case (3 p ps c cs)
  then show ?case by (cases n) simp_all
qed simp_all

lemma starts_with_of_take: "starts_with p (take n s) \<Longrightarrow> starts_with p s"
proof (induction p s arbitrary: n rule: starts_with.induct)
  case (3 p ps c cs)
  then show ?case by (cases n) auto
qed simp_all

lemma starts_with_length: "starts_with p s \<Longrightarrow> length p \<le> length s"
  by (induction p s rule: starts_with.induct) simp_all

lemma lazy_paren_Some:
  "lazy_paren acc s = Some (p, rest) \<Longrightarrow>
   length rest < length s \<and> lazy_paren acc (take (length s - length rest) s) = Some (p, [])"
proof (induction s arbitrary: acc)
  case Nil
  then show ?case by simp
next
  case (Cons c cs)
  show ?case
  proof (cases "c = CHR '')''")
    case True
    with Cons.prems show ?thesis by auto
  next
    case False
    with Cons.prems have d: "dot c" and r: "lazy_paren (c # acc) cs = Some (p, rest)"
      by (auto split: if_splits)
    from Cons.IH [OF r] have l: "length rest < length cs"
      and t: "lazy_paren (c # acc) (take (length cs - length rest) cs) = Some (p, [])"
      by simp_all
    from l have "take (length (c # cs) - length rest) (c # cs) = c # take (length cs - length rest) cs"
      by (simp add: Suc_diff_le take_Cons')
    with False d t l show ?thesis by simp
  qed
qed

lemma lazy_paren_None:
  "lazy_paren acc s = None \<Longrightarrow> lazy_paren acc (take n s) = None"
proof (induction s arbitrary: acc n)
  case Nil
  then show ?case by simp
next
  case (Cons c cs)
  then show ?case by (cases n) (auto split: if_splits)
qed

lemma match_path_Some:
  assumes "match_path s = Some (p, rest)"
  shows "length rest < length s \<and> match_path (take (length s - length rest) s) = Some (p, [])"
proof (cases s)
  case Nil
  with assms show ?thesis by simp
next
  case (Cons c cs)
  with assms have d: "dot c" and r: "lazy_paren [c] cs = Some (p, rest)"
    by (auto split: if_splits)
  from lazy_paren_Some [OF r] have l: "length rest < length cs"
    and t: "lazy_paren [c] (take (length cs - length rest) cs) = Some (p, [])"
    by simp_all
  from l have "take (length (c # cs) - length rest) (c # cs) = c # take (length cs - length rest) cs"
    by (simp add: Suc_diff_le take_Cons')
  with Cons d t l show ?thesis by simp
qed

lemma match_path_None: "match_path s = None \<Longrightarrow> match_path (take n s) = None"
proof (cases s)
  case Nil
  then show ?thesis by simp
next
  case (Cons c cs)
  assume "match_path s = None"
  with Cons show ?thesis
    by (cases n) (auto simp: lazy_paren_None split: if_splits)
qed


lemma attempt_None:
  assumes "(if starts_with '']('' s then match_path (drop 2 s) else None) = None"
  shows "(if starts_with '']('' (take n s) then match_path (drop 2 (take n s)) else None) = None"
proof (cases "starts_with '']('' (take n s)")
  case True
  then have "starts_with '']('' s" by (rule starts_with_of_take)
  with assms have "match_path (drop 2 s) = None" by simp
  then have "match_path (take (n - 2) (drop 2 s)) = None" by (rule match_path_None)
  then show ?thesis by (simp add: drop_take)
next
  case False
  then show ?thesis by simp
qed

lemma attempt_Some:
  assumes "(if starts_with '']('' s then match_path (drop 2 s) else None) = Some (p, rest)"
  shows "length rest < length s \<and>
         (if starts_with '']('' (take (length s - length rest) s)
          then match_path (drop 2 (take (length s - length rest) s)) else None) = Some (p, [])"
proof -
  from assms have sw: "starts_with '']('' s" and mp: "match_path (drop 2 s) = Some (p, rest)"
    by (simp_all split: if_splits)
  from match_path_Some [OF mp] have l: "length rest < length s - 2"
    and t: "match_path (take (length s - 2 - length rest) (drop 2 s)) = Some (p, [])"
    by simp_all
  from l have "length '']('' \<le> length s - length rest" by simp
  with sw have "starts_with '']('' (take (length s - length rest) s)"
    by (rule starts_with_take)
  moreover have "drop 2 (take (length s - length rest) s) = take (length s - 2 - length rest) (drop 2 s)"
    by (simp add: drop_take)
  ultimately show ?thesis using l t by simp
qed

lemma match_alt_Some:
  "match_alt acc s = Some (a, p, rest) \<Longrightarrow>
   length rest < length s \<and> match_alt acc (take (length s - length rest) s) = Some (a, p, [])"
proof (induction s arbitrary: acc)
  case Nil
  then show ?case
    by (subst (asm) match_alt.simps) (simp split: option.splits)
next
  case (Cons c cs)
  let ?s = "c # cs"
  show ?case
  proof (cases "if starts_with '']('' ?s then match_path (drop 2 ?s) else None")
    case (Some pr)
    then obtain p' rest' where pr: "pr = (p', rest')" by (cases pr)
    with Some Cons.prems have eq: "a = rev acc" "p' = p" "rest' = rest"
      by (subst (asm) match_alt.simps, simp)+
    from attempt_Some [of ?s p rest] Some pr eq
    have l: "length rest < length ?s"
      and t: "(if starts_with '']('' (take (length ?s - length rest) ?s)
               then match_path (drop 2 (take (length ?s - length rest) ?s)) else None) = Some (p, [])"
      by simp_all
    from t have "match_alt acc (take (length ?s - length rest) ?s) = Some (rev acc, p, [])"
      by (subst match_alt.simps) simp
    with l eq show ?thesis by simp
  next
    case None
    with Cons.prems have d: "dot c" and r: "match_alt (c # acc) cs = Some (a, p, rest)"
      by (subst (asm) match_alt.simps, simp split: if_splits)+
    from Cons.IH [OF r] have l: "length rest < length cs"
      and t: "match_alt (c # acc) (take (length cs - length rest) cs) = Some (a, p, [])"
      by simp_all
    from l have tk: "take (length ?s - length rest) ?s = c # take (length cs - length rest) cs"
      by (simp add: Suc_diff_le take_Cons')
    from attempt_None [OF None, of "length ?s - length rest"]
    have "(if starts_with '']('' (c # take (length cs - length rest) cs)
           then match_path (drop 2 (c # take (length cs - length rest) cs)) else None) = None"
      by (simp only: tk)
    then have "match_alt acc (c # take (length cs - length rest) cs) = Some (a, p, [])"
      using d t by (subst match_alt.simps) simp
    with l tk show ?thesis by simp
  qed
qed

lemma match_here_Some:
  assumes "match_here s = Some (a, p, rest)"
  shows "length rest < length s \<and>
         match_here (take (length s - length rest) s) = Some (a, p, [])"
proof -
  from assms have sw: "starts_with ''!['' s" and ma: "match_alt [] (drop 2 s) = Some (a, p, rest)"
    by (simp_all add: match_here_def split: if_splits)
  from match_alt_Some [OF ma] have l: "length rest < length s - 2"
    and t: "match_alt [] (take (length s - 2 - length rest) (drop 2 s)) = Some (a, p, [])"
    by simp_all
  from l have "length ''!['' \<le> length s - length rest" by simp
  with sw have "starts_with ''!['' (take (length s - length rest) s)"
    by (rule starts_with_take)
  moreover have "drop 2 (take (length s - length rest) s) = take (length s - 2 - length rest) (drop 2 s)"
    by (simp add: drop_take)
  ultimately show ?thesis using l t by (simp add: match_here_def)
qed

lemma match_all_unfold:
  "match_all s =
     (if s = [] then []
      else (case match_here s of
              Some (alt, p, rest) \<Rightarrow> take (length s - length rest) s # match_all rest
            | None \<Rightarrow> match_all (tl s)))"
  by (subst match_all.simps) (auto split: option.splits dest: match_here_Some)

lemma remove_all_unfold:
  "remove_all s =
     (if s = [] then []
      else (case match_here s of
              Some (alt, p, rest) \<Rightarrow> remove_all rest
            | None \<Rightarrow> hd s # remove_all (tl s)))"
  by (subst remove_all.simps) (auto split: option.splits dest: match_here_Some)

lemma capture_path_of_match:
  assumes "match_here s = Some (a, p, rest)"
  shows "capture_path (take (length s - length rest) s) = Some p"
proof -
  from match_here_Some [OF assms] have l: "length rest < length s"
    and t: "match_here (take (length s - length rest) s) = Some (a, p, [])"
    by simp_all
  from l have "take (length s - length rest) s \<noteq> []" by auto
  with t show ?thesis by (subst capture_path.simps) simp
qed

lemma capture_path_match_all:
  "img \<in> set (match_all s) \<Longrightarrow> \<exists>p. capture_path img = Some p"
proof (induction s rule: match_all.induct)
  case (1 s)
  show ?case
  proof (cases "s = []")
    case True
    with "1.prems" show ?thesis by (subst (asm) match_all.simps) simp
  next
    case False
    show ?thesis
    proof (cases "match_here s")
      case None
      with False "1.prems" have "img \<in> set (match_all (tl s))"
        by (subst (asm) match_all.simps) simp
      with "1.IH"(1) [OF False None] show ?thesis by simp
    next
      case (Some m)
      then obtain a p rest where m: "match_here s = Some (a, p, rest)"
        by (cases m) auto
      from match_here_Some [OF m] have l: "length rest < length s" by simp
      from "1.prems" False m l
      have "img = take (length s - length rest) s \<or> img \<in> set (match_all rest)"
        by (subst (asm) match_all.simps) simp
      then show ?thesis
      proof
        assume "img = take (length s - length rest) s"
        with capture_path_of_match [OF m] show ?thesis by simp
      next
        assume "img \<in> set (match_all rest)"
        with "1.IH"(2) [OF False m refl refl l] show ?thesis by simp
      qed
    qed
  qed
qed

lemma map_filter_all:
  "\<forall>x \<in> set xs. \<exists>y. f x = Some y \<Longrightarrow> length (List.map_filter f xs) = length xs"
  by (induction xs) (auto simp: List.map_filter_simps)

lemma image_paths_length: "length (image_paths dir block) = length (match_all block)"
  unfolding image_paths_def
  using capture_path_match_all by (intro map_filter_all) fastforce

section \<open>Properties of the reply chain\<close>

lemma status_call_cong:
  assumes "i \<le> length rs"
  shows "status_call contents (rs @ ys) i = status_call contents rs i"
  using assms by (cases i) (auto simp: status_call_def nth_append)

lemma calls_upto_cong:
  assumes "k \<le> Suc (length rs)"
  shows "calls_upto contents (rs @ ys) k = calls_upto contents rs k"
  using assms by (auto simp: calls_upto_def status_call_cong)

lemma calls_upto_Suc:
  "calls_upto contents rs (Suc k) = calls_upto contents rs k @ [status_call contents rs k]"
  by (simp add: calls_upto_def)

lemma accepted_cong:
  assumes "k \<le> length rs"
  shows "accepted srv log contents (rs @ ys) k = accepted srv log contents rs k"
  using assms by (auto simp: accepted_def calls_upto_cong status_call_cong nth_append)

lemma accepted_Suc:
  "accepted srv log contents rs (Suc k) \<longleftrightarrow>
     accepted srv log contents rs k \<and>
     srv (log @ calls_upto contents rs k) (status_call contents rs k) = Some (rs ! k)"
  by (auto simp: accepted_def less_Suc_eq)

text \<open>When the service accepts the chain up to \<open>n\<close>, \<open>post\<close> sends it and returns its last response.\<close>

lemma post_accepted:
  assumes "n < length contents" "Suc n \<le> length rs" "accepted srv log contents rs (Suc n)"
  shows "post srv log n contents = (Inr (rs ! n), log @ calls_upto contents rs (Suc n))"
  using assms
proof (induction n)
  case 0
  then show ?case
    by (simp add: accepted_def calls_upto_def status_call_def)
next
  case (Suc n)
  from Suc.prems have acc: "accepted srv log contents rs (Suc n)"
    and last: "srv (log @ calls_upto contents rs (Suc n)) (status_call contents rs (Suc n))
                 = Some (rs ! Suc n)"
    by (simp_all add: accepted_Suc)
  from Suc.IH acc Suc.prems
  have ih: "post srv log n contents = (Inr (rs ! n), log @ calls_upto contents rs (Suc n))"
    by simp
  have call: "status_call contents rs (Suc n) =
      StatusUpdate (text_p (contents ! Suc n)) (media_ids (contents ! Suc n))
        (Some (id_str (rs ! n)))"
    by (simp add: status_call_def)
  show ?case
    using Suc.prems(1) last
    by (simp add: ih calls_upto_Suc [of _ _ "Suc n"] call del: upt_Suc)
qed

text \<open>Conversely, a successful \<open>post\<close> has sent an accepted chain.\<close>

lemma post_Inr:
  assumes "n < length contents" "post srv log n contents = (Inr r, log')"
  shows "\<exists>rs. length rs = Suc n \<and> log' = log @ calls_upto contents rs (Suc n) \<and>
              accepted srv log contents rs (Suc n) \<and> r = rs ! n"
  using assms
proof (induction n arbitrary: r log')
  case 0
  then have "srv log (StatusUpdate (text_p (contents ! 0)) (media_ids (contents ! 0)) None) = Some r"
    and "log' = log @ [StatusUpdate (text_p (contents ! 0)) (media_ids (contents ! 0)) None]"
    by (auto simp: Let_def split: option.splits)
  then show ?case
    by (intro exI [of _ "[r]"]) (simp add: accepted_def calls_upto_def status_call_def)
next
  case (Suc n)
  from Suc.prems obtain prev lg where
    p: "post srv log n contents = (Inr prev, lg)"
    and s: "srv lg (StatusUpdate (text_p (contents ! Suc n)) (media_ids (contents ! Suc n))
                     (Some (id_str prev))) = Some r"
    and l: "log' = lg @ [StatusUpdate (text_p (contents ! Suc n)) (media_ids (contents ! Suc n))
                           (Some (id_str prev))]"
    by (auto simp: Let_def split: prod.splits sum.splits option.splits)
  from Suc.IH [OF _ p] Suc.prems(1) obtain rs where
    rs: "length rs = Suc n" "lg = log @ calls_upto contents rs (Suc n)"
        "accepted srv log contents rs (Suc n)" "prev = rs ! n"
    by auto
  have call: "status_call contents (rs @ [r]) (Suc n) =
      StatusUpdate (text_p (contents ! Suc n)) (media_ids (contents ! Suc n))
        (Some (id_str prev))"
    using rs(1,4) by (simp add: status_call_def nth_append)
  have cu: "calls_upto contents (rs @ [r]) (Suc n) = calls_upto contents rs (Suc n)"
    using rs(1) by (intro calls_upto_cong) simp
  have acc: "accepted srv log contents (rs @ [r]) (Suc n) = accepted srv log contents rs (Suc n)"
    using rs(1) by (intro accepted_cong) simp
  show ?case
    apply (intro exI [of _ "rs @ [r]"])
    using rs s l
    by (simp add: accepted_Suc [of _ _ _ _ "Suc n"] calls_upto_Suc [of _ _ "Suc n"]
          call cu acc nth_append del: upt_Suc)
qed

text \<open>When the service rejects the request of index \<open>i\<close>, \<open>post\<close> stops there.\<close>

lemma post_Inl:
  assumes "i \<le> n" "n < length contents" "i \<le> length rs" "accepted srv log contents rs i"
    "srv (log @ calls_upto contents rs i) (status_call contents rs i) = None"
  shows "post srv log n contents = (Inl PostFailed, log @ calls_upto contents rs (Suc i))"
  using assms
proof (induction n)
  case 0
  then show ?case by (simp add: calls_upto_def status_call_def)
next
  case (Suc n)
  show ?case
  proof (cases "i = Suc n")
    case True
    with Suc.prems
    have "post srv log n contents = (Inr (rs ! n), log @ calls_upto contents rs (Suc n))"
      by (intro post_accepted) auto
    moreover have "status_call contents rs (Suc n) =
      StatusUpdate (text_p (contents ! Suc n)) (media_ids (contents ! Suc n))
        (Some (id_str (rs ! n)))"
      by (simp add: status_call_def)
    ultimately show ?thesis
      using Suc.prems True
      by (simp add: calls_upto_Suc [of _ _ "Suc n"] del: upt_Suc)
  next
    case False
    with Suc.prems
    have "post srv log n contents = (Inl PostFailed, log @ calls_upto contents rs (Suc i))"
      by (intro Suc.IH) auto
    then show ?thesis using Suc.prems by simp
  qed
qed

lemma last_by_length:
  assumes "length rs = length cs" "cs \<noteq> []"
  shows "last rs = rs ! (length cs - 1)"
proof -
  from assms have "rs \<noteq> []" by auto
  then show ?thesis using assms(1) by (simp add: last_conv_nth)
qed

text \<open>
  C1: for a list of N contents, N at least 1, the posting operation succeeds exactly
  when the service accepts the N requests of the chain, sent in the order 0 to N - 1:
  the request of index 0 has no reply target, the request of every later index has
  the id of the response to the request before it, and the operation returns the
  response to the last request.
\<close>

theorem post_thread_order:
  assumes "contents \<noteq> []"
  shows "post srv log (length contents - 1) contents = (Inr r, log') \<longleftrightarrow>
         (\<exists>rs. length rs = length contents \<and>
               accepted srv log contents rs (length contents) \<and>
               log' = log @ calls_upto contents rs (length contents) \<and>
               r = last rs)"
proof
  assume "post srv log (length contents - 1) contents = (Inr r, log')"
  with assms post_Inr [of "length contents - 1" contents srv log r log']
  obtain rs where "length rs = length contents"
    "log' = log @ calls_upto contents rs (length contents)"
    "accepted srv log contents rs (length contents)" "r = rs ! (length contents - 1)"
    by auto
  moreover from this assms have "r = last rs"
    by (simp add: last_by_length)
  ultimately show "\<exists>rs. length rs = length contents \<and>
               accepted srv log contents rs (length contents) \<and>
               log' = log @ calls_upto contents rs (length contents) \<and>
               r = last rs"
    by blast
next
  assume "\<exists>rs. length rs = length contents \<and>
               accepted srv log contents rs (length contents) \<and>
               log' = log @ calls_upto contents rs (length contents) \<and>
               r = last rs"
  then obtain rs where rs: "length rs = length contents"
    "accepted srv log contents rs (length contents)"
    "log' = log @ calls_upto contents rs (length contents)" "r = last rs"
    by blast
  from assms rs(1) have "r = rs ! (length contents - 1)"
    using rs(4) by (simp add: last_by_length)
  with assms rs post_accepted [of "length contents - 1" contents rs srv log]
  show "post srv log (length contents - 1) contents = (Inr r, log')"
    by simp
qed

theorem post_thread_order_witness:
  "[\<lparr> text_p = ''a'', mediaIds = [Some ''m2'', None] \<rparr>, \<lparr> text_p = ''b'', mediaIds = [] \<rparr>] \<noteq> [] \<and>
   post fake_server [] 1
     [\<lparr> text_p = ''a'', mediaIds = [Some ''m2'', None] \<rparr>, \<lparr> text_p = ''b'', mediaIds = [] \<rparr>]
   = (Inr \<lparr> id_str = ''p1'', media_id_string = ''m1'', error_field = None \<rparr>,
      [StatusUpdate ''a'' ''m2,'' None, StatusUpdate ''b'' [] (Some ''p0'')])"
proof -
  let ?cs = "[\<lparr> text_p = ''a'', mediaIds = [Some ''m2'', None] \<rparr>, \<lparr> text_p = ''b'', mediaIds = [] \<rparr>]"
  let ?rs = "[\<lparr> id_str = ''p0'', media_id_string = ''m0'', error_field = None \<rparr>,
              \<lparr> id_str = ''p1'', media_id_string = ''m1'', error_field = None \<rparr>]"
  have ne: "?cs \<noteq> []" by simp
  have "length ?rs = length ?cs \<and> accepted fake_server [] ?cs ?rs (length ?cs) \<and>
        [StatusUpdate ''a'' ''m2,'' None, StatusUpdate ''b'' [] (Some ''p0'')]
          = [] @ calls_upto ?cs ?rs (length ?cs) \<and>
        \<lparr> id_str = ''p1'', media_id_string = ''m1'', error_field = None \<rparr> = last ?rs"
    by (simp add: accepted_def calls_upto_def status_call_def media_ids_def fake_server_def
          show_nat_digits less_Suc_eq)
  then have "\<exists>rs. length rs = length ?cs \<and> accepted fake_server [] ?cs rs (length ?cs) \<and>
        [StatusUpdate ''a'' ''m2,'' None, StatusUpdate ''b'' [] (Some ''p0'')]
          = [] @ calls_upto ?cs rs (length ?cs) \<and>
        \<lparr> id_str = ''p1'', media_id_string = ''m1'', error_field = None \<rparr> = last rs"
    by (rule exI)
  with post_thread_order [OF ne, of fake_server "[]"]
  have "post fake_server [] (length ?cs - 1) ?cs
   = (Inr \<lparr> id_str = ''p1'', media_id_string = ''m1'', error_field = None \<rparr>,
      [StatusUpdate ''a'' ''m2,'' None, StatusUpdate ''b'' [] (Some ''p0'')])"
    by blast
  moreover have "length ?cs - 1 = 1" by simp
  ultimately show ?thesis using ne by (simp only: simp_thms)
qed

text \<open>
  C7: when the service accepts the requests of the indices below \<open>i\<close> and rejects the
  request of index \<open>i\<close>, the posting operation aborts with \<^verbatim>\<open>PostFailed\<close>; it has
  sent the \<open>i + 1\<close> requests of the indices 0 to \<open>i\<close> and nothing else: no request of a
  later index, and no request other than a status update, so nothing retracts the
  posts already made.
\<close>

theorem post_failure_aborts_chain:
  assumes "i < length contents" "length rs = i" "accepted srv log contents rs i"
    "srv (log @ calls_upto contents rs i) (status_call contents rs i) = None"
  shows "post srv log (length contents - 1) contents
           = (Inl PostFailed, log @ calls_upto contents rs (Suc i))
         \<and> length (calls_upto contents rs (Suc i)) = Suc i
         \<and> (\<forall>c \<in> set (calls_upto contents rs (Suc i)). \<exists>t m r. c = StatusUpdate t m r)"
proof -
  from assms have "post srv log (length contents - 1) contents
           = (Inl PostFailed, log @ calls_upto contents rs (Suc i))"
    by (intro post_Inl) auto
  moreover have "length (calls_upto contents rs (Suc i)) = Suc i"
    by (simp add: calls_upto_def)
  moreover have "\<forall>c \<in> set (calls_upto contents rs (Suc i)). \<exists>t m r. c = StatusUpdate t m r"
    by (auto simp: calls_upto_def status_call_def simp del: upt_Suc)
  ultimately show ?thesis by blast
qed

theorem post_failure_aborts_chain_witness:
  "post (reject_at 1 fake_server) [] 2
     [\<lparr> text_p = ''a'', mediaIds = [] \<rparr>, \<lparr> text_p = ''b'', mediaIds = [] \<rparr>,
      \<lparr> text_p = ''c'', mediaIds = [] \<rparr>]
   = (Inl PostFailed, [StatusUpdate ''a'' [] None, StatusUpdate ''b'' [] (Some ''p0'')])"
proof -
  let ?cs = "[\<lparr> text_p = ''a'', mediaIds = [] \<rparr>, \<lparr> text_p = ''b'', mediaIds = [] \<rparr>,
      \<lparr> text_p = ''c'', mediaIds = [] \<rparr>]"
  let ?rs = "[\<lparr> id_str = ''p0'', media_id_string = ''m0'', error_field = None \<rparr>]"
  have 1: "1 < length ?cs" by simp
  have 2: "length ?rs = 1" by simp
  have 3: "accepted (reject_at 1 fake_server) [] ?cs ?rs 1"
    by (simp add: accepted_def calls_upto_def status_call_def media_ids_def fake_server_def
          reject_at_def show_nat_digits)
  have 4: "reject_at 1 fake_server ([] @ calls_upto ?cs ?rs 1) (status_call ?cs ?rs 1) = None"
    by (simp add: calls_upto_def reject_at_def)
  from post_failure_aborts_chain [OF 1 2 3 4]
  have "post (reject_at 1 fake_server) [] (length ?cs - 1) ?cs
          = (Inl PostFailed, [] @ calls_upto ?cs ?rs (Suc 1))"
    by blast
  moreover have "length ?cs - 1 = 2" by simp
  moreover have "[] @ calls_upto ?cs ?rs (Suc 1)
                   = [StatusUpdate ''a'' [] None, StatusUpdate ''b'' [] (Some ''p0'')]"
    by (simp add: calls_upto_def status_call_def media_ids_def)
  ultimately show ?thesis by (simp only:)
qed

section \<open>Properties of the parser\<close>

lemma starts_with_append: "starts_with sep s \<Longrightarrow> sep @ drop (length sep) s = s"
  by (induction sep s rule: starts_with.induct) auto

lemma split_not_Nil: "split sep s \<noteq> []"
  by (subst split.simps) (auto split: list.splits)

lemma join_with_Cons: "xs \<noteq> [] \<Longrightarrow> join_with sep (x # xs) = x @ sep @ join_with sep xs"
  by (cases xs) auto

lemma join_with_push: "join_with sep ((c # x) # xs) = c # join_with sep (x # xs)"
  by (cases xs) auto

lemma join_split: "join_with sep (split sep s) = s"
proof (induction sep s rule: split.induct)
  case (1 sep s)
  show ?case
  proof (cases "s = [] \<or> sep = []")
    case True
    then show ?thesis by (subst split.simps) simp
  next
    case False
    show ?thesis
    proof (cases "starts_with sep s")
      case True
      with False "1.IH"(1) have "join_with sep (split sep (drop (length sep) s)) = drop (length sep) s"
        by simp
      with True False show ?thesis
        by (subst split.simps) (simp add: join_with_Cons split_not_Nil starts_with_append)
    next
      case nsw: False
      with False "1.IH"(2) have ih: "join_with sep (split sep (tl s)) = tl s"
        by simp
      obtain piece pieces where sp: "split sep (tl s) = piece # pieces"
        using split_not_Nil [of sep "tl s"] by (cases "split sep (tl s)") auto
      from False have "s = hd s # tl s" by simp
      with ih sp nsw False show ?thesis
        by (subst split.simps) (simp add: join_with_push)
    qed
  qed
qed

lemma makeBlocks_text_length: "length (makeBlocks_text doc) = length (split ''---'' doc)"
  by (simp add: makeBlocks_text_def Let_def)

lemma makeBlocks_text_nth:
  assumes "i < length (split ''---'' doc)"
  shows "makeBlocks_text doc ! i =
     show_nat i @ ''/'' @ show_nat (length (split ''---'' doc) - 1) @ ''\<newline>\<newline>''
       @ trim (split ''---'' doc ! i)"
  using assms by (simp add: makeBlocks_text_def Let_def label_block_def counter_def nth_enumerate_eq)

lemma spaced_split: "split ''---'' '' a ---b'' = ['' a '', ''b'']"
  by code_simp

lemma spaced_blocks: "makeBlocks_text '' a ---b'' = [''0/1\<newline>\<newline>a'', ''1/1\<newline>\<newline>b'']"
  by code_simp

text \<open>
  C6, as stated, fails: the blocks of the document \<^verbatim>\<open> a ---b\<close> are not its raw pieces
  \<^verbatim>\<open> a \<close> and \<^verbatim>\<open>b\<close>; each is labelled and trimmed.
\<close>

theorem makeBlocks_raw_counterexample:
  "makeBlocks spaced_env ''spaced.md'' = Inr [''0/1\<newline>\<newline>a'', ''1/1\<newline>\<newline>b'']
   \<and> split ''---'' '' a ---b'' = ['' a '', ''b'']"
  by (simp add: makeBlocks_def readFileSync_def spaced_env_def spaced_blocks spaced_split)

text \<open>
  C6, amended: the parsing stage splits the document on the delimiter without
  filtering (the pieces joined by the delimiter give the document back, so empty
  pieces are kept and the order is the document's) and outputs, for each piece in
  order, the label \<^verbatim>\<open>i/(count - 1)\<close>, two line feeds and the piece trimmed of
  surrounding white space.
\<close>

theorem makeBlocks_labelled_trimmed:
  assumes "files e filename = Some (File f)"
  shows "\<exists>blocks. makeBlocks e filename = Inr blocks \<and>
           join_with ''---'' (split ''---'' (utf8 f)) = utf8 f \<and>
           length blocks = length (split ''---'' (utf8 f)) \<and>
           (\<forall>i < length blocks.
              blocks ! i = show_nat i @ ''/'' @ show_nat (length blocks - 1) @ ''\<newline>\<newline>''
                             @ trim (split ''---'' (utf8 f) ! i))"
  using assms
  by (simp add: makeBlocks_def readFileSync_def join_split makeBlocks_text_length makeBlocks_text_nth)

theorem makeBlocks_labelled_trimmed_witness:
  "\<exists>blocks. makeBlocks spaced_env ''spaced.md'' = Inr blocks \<and> length blocks = 2 \<and>
     blocks ! 0 = ''0/1\<newline>\<newline>'' @ trim '' a '' \<and> blocks ! 1 = ''1/1\<newline>\<newline>'' @ trim ''b''"
proof -
  have 1: "files spaced_env ''spaced.md''
             = Some (File \<lparr> byte_length = 7, utf8 = '' a ---b'', base64 = [] \<rparr>)"
    by (simp add: spaced_env_def)
  from makeBlocks_labelled_trimmed [OF 1] obtain blocks where
    b: "makeBlocks spaced_env ''spaced.md'' = Inr blocks"
       "length blocks = length (split ''---'' '' a ---b'')"
       "\<forall>i < length blocks.
              blocks ! i = show_nat i @ ''/'' @ show_nat (length blocks - 1) @ ''\<newline>\<newline>''
                             @ trim (split ''---'' '' a ---b'' ! i)"
    by auto
  from b(2) have l: "length blocks = 2" by (simp add: spaced_split)
  from b(3) l have "blocks ! 0 = ''0/1\<newline>\<newline>'' @ trim '' a ''" "blocks ! 1 = ''1/1\<newline>\<newline>'' @ trim ''b''"
    by (simp_all add: spaced_split show_nat_digits)
  with b(1) l show ?thesis by blast
qed


section \<open>Properties of the checks before the first request\<close>

lemma lint_find:
  "lint (map text_c cs) = map_option (\<lambda>c. ContentTooLong (take 280 (text_c c))) (find too_long cs)"
  by (induction cs) (auto simp: lint_def lint_block_def too_long_def)

lemma find_Some_ex: "c \<in> set cs \<Longrightarrow> P c \<Longrightarrow> \<exists>c'. find P cs = Some c'"
  by (induction cs) auto

lemma prepare_too_long:
  assumes "active_profile e" "files e filename = Some (File f)"
    "find too_long (document_contents e filename) = Some c"
  shows "prepare e filename = Inl (Threw (ContentTooLong (take 280 (text_c c))))"
  using assms
  by (simp add: prepare_def checkFileExists_def makeBlocks_def readFileSync_def
        document_contents_def lint_find Let_def)

lemma map_throwing_Inr:
  "map_throwing f xs = Inr ys \<Longrightarrow> list_all2 (\<lambda>x y. f x = Inr y) xs ys"
  by (induction xs arbitrary: ys) (auto split: sum.splits)

lemma map_throwing_total:
  "\<forall>x \<in> set xs. \<exists>y. f x = Inr y \<Longrightarrow> \<exists>ys. map_throwing f xs = Inr ys"
  by (induction xs) (auto split: sum.splits)

lemma getImagesData_Inr:
  "getImagesData e p = Inr d \<Longrightarrow> path d = p \<and> (total_bytes d > 5242880 \<longleftrightarrow> oversized e p)"
  by (auto simp: getImagesData_def readFileSync_def oversized_def split: option.splits entry.splits)

lemma checkImageSize_find:
  "list_all2 (\<lambda>p d. getImagesData e p = Inr d) ps ds \<Longrightarrow>
   for_each checkImageSize ds = map_option ImageTooLarge (find (oversized e) ps)"
proof (induction rule: list_all2_induct)
  case Nil
  then show ?case by simp
next
  case (Cons p ps d ds)
  from getImagesData_Inr [OF Cons.hyps(1)] Cons.IH show ?case
    by (auto simp: checkImageSize_def)
qed

lemma prepare_oversized:
  assumes "active_profile e" "files e filename = Some (File f)"
    "p \<in> set (imagePaths (document_contents e filename))" "oversized e p"
  shows "\<exists>err. prepare e filename = Inl (Threw err) \<and>
           (lint (map text_c (document_contents e filename)) = None \<and>
            (\<forall>q \<in> set (imagePaths (document_contents e filename)). readable e q) \<and>
            checkImageNumberPerPost (document_contents e filename) = None
            \<longrightarrow> (\<exists>p'. find (oversized e) (imagePaths (document_contents e filename)) = Some p'
                       \<and> err = ImageTooLarge p'))"
proof -
  define cs where "cs = document_contents e filename"
  have mb: "makeBlocks e filename = Inr (makeBlocks_text (utf8 f))"
    using assms(2) by (simp add: makeBlocks_def readFileSync_def)
  have cs: "extractImage (makeBlocks_text (utf8 f)) (resolve_dirname e filename) = cs"
    by (simp add: cs_def document_contents_def mb)
  obtain p' where p': "find (oversized e) (imagePaths cs) = Some p'"
    using find_Some_ex [of p "imagePaths cs" "oversized e"] assms(3,4) by (auto simp: cs_def)
  have ex: "checkFileExists e filename = None"
    using assms(2) by (simp add: checkFileExists_def)
  have reads: "(\<forall>q \<in> set (imagePaths cs). readable e q) \<Longrightarrow>
      for_each (checkFileExists e) (imagePaths cs) = None \<and>
      (\<exists>ds. map_throwing (getImagesData e) (imagePaths cs) = Inr ds)"
  proof -
    assume r: "\<forall>q \<in> set (imagePaths cs). readable e q"
    then have "\<forall>q \<in> set (imagePaths cs). checkFileExists e q = None"
      by (auto simp: readable_def checkFileExists_def split: option.splits)
    moreover from r have "\<forall>q \<in> set (imagePaths cs). \<exists>d. getImagesData e q = Inr d"
      by (auto simp: readable_def getImagesData_def readFileSync_def split: option.splits entry.splits)
    ultimately show ?thesis
      by (simp add: for_each_None map_throwing_total)
  qed
  have size: "\<And>ds. map_throwing (getImagesData e) (imagePaths cs) = Inr ds \<Longrightarrow>
      for_each checkImageSize ds = Some (ImageTooLarge p')"
    using checkImageSize_find [OF map_throwing_Inr] p' by fastforce
  show ?thesis
    unfolding cs_def [symmetric]
    using assms(1) ex reads size p'
    by (auto simp: prepare_def mb cs Let_def split: option.splits sum.splits)
qed


lemma long_contents:
  "document_contents long_env ''long.md''
     = [\<lparr> text_c = ''0/0\<newline>\<newline>'' @ replicate 300 (CHR ''a''), images = [] \<rparr>]"
  by code_simp

lemma big_contents:
  "document_contents big_env ''big.md'' = [\<lparr> text_c = ''0/0\<newline>\<newline>'', images = [''/d/big.png''] \<rparr>]"
  by code_simp


text \<open>
  C5: when a profile is active and the document can be read, a Content whose text,
  ordinal label included, is longer than 280 characters makes the run abort with
  \<^verbatim>\<open>ContentTooLong\<close> before any request is sent; the error carries the first 280
  characters of the first such Content.
\<close>

theorem too_long_aborts_before_network:
  assumes "active_profile e" "files e filename = Some (File f)"
    "c \<in> set (document_contents e filename)" "length (text_c c) > 280"
  shows "\<exists>c'. find too_long (document_contents e filename) = Some c' \<and>
           post_command e srv sched filename
             = (Threw (ContentTooLong (take 280 (text_c c'))), [])"
proof -
  from assms(3,4) obtain c' where c': "find too_long (document_contents e filename) = Some c'"
    using find_Some_ex [of c _ too_long] by (auto simp: too_long_def)
  from prepare_too_long [OF assms(1,2) c'] c' show ?thesis
    by (simp add: post_command_def)
qed

theorem too_long_aborts_before_network_witness:
  "post_command long_env fake_server [] ''long.md''
     = (Threw (ContentTooLong (''0/0\<newline>\<newline>'' @ replicate 275 (CHR ''a''))), [])"
proof -
  let ?c = "\<lparr> text_c = ''0/0\<newline>\<newline>'' @ replicate 300 (CHR ''a''), images = [] \<rparr>"
  have 1: "active_profile long_env"
    by (simp add: long_env_def)
  have 2: "files long_env ''long.md''
             = Some (File \<lparr> byte_length = 300, utf8 = replicate 300 (CHR ''a''), base64 = [] \<rparr>)"
    by (simp add: long_env_def)
  have 3: "?c \<in> set (document_contents long_env ''long.md'')"
    by (simp add: long_contents)
  have 4: "length (text_c ?c) > 280"
    by simp
  have 5: "take 280 (text_c ?c) = ''0/0\<newline>\<newline>'' @ replicate 275 (CHR ''a'')"
    by simp
  from too_long_aborts_before_network [OF 1 2 3 4, of fake_server "[]"] 5
  show ?thesis
    by (auto simp: long_contents too_long_def)
qed

text \<open>
  C9, amended: when a profile is active and the document can be read, a referenced
  image file of more than 5,242,880 bytes makes the run abort before any request is
  sent; the error is \<^verbatim>\<open>ImageTooLarge\<close>, for the first such image, whenever the checks
  that run before the size check (length, existence, media mix, reading the files)
  pass.
\<close>

theorem oversized_image_aborts_before_network:
  assumes "active_profile e" "files e filename = Some (File f)"
    "p \<in> set (imagePaths (document_contents e filename))"
    "files e p = Some (File g)" "byte_length g > 5242880"
  shows "\<exists>err. post_command e srv sched filename = (Threw err, []) \<and>
           (lint (map text_c (document_contents e filename)) = None \<and>
            (\<forall>q \<in> set (imagePaths (document_contents e filename)). readable e q) \<and>
            checkImageNumberPerPost (document_contents e filename) = None
            \<longrightarrow> (\<exists>p'. find (oversized e) (imagePaths (document_contents e filename)) = Some p'
                       \<and> err = ImageTooLarge p'))"
proof -
  from assms(4,5) have "oversized e p"
    by (simp add: oversized_def)
  from prepare_oversized [OF assms(1-3) this] show ?thesis
    by (auto simp: post_command_def)
qed

lemma big_paths: "imagePaths [\<lparr> text_c = ''0/0\<newline>\<newline>'', images = [''/d/big.png''] \<rparr>] = [''/d/big.png'']"
  by (simp add: imagePaths_def first_occurrences_def enumerate_eq_zip)

theorem oversized_image_aborts_before_network_witness:
  "post_command big_env fake_server [] ''big.md'' = (Threw (ImageTooLarge ''/d/big.png''), [])"
proof -
  have 1: "active_profile big_env"
    by (simp add: big_env_def)
  have 2: "files big_env ''big.md''
             = Some (File \<lparr> byte_length = 13, utf8 = ''![a](big.png)'', base64 = [] \<rparr>)"
    by (simp add: big_env_def)
  have 3: "''/d/big.png'' \<in> set (imagePaths (document_contents big_env ''big.md''))"
    by (simp add: big_contents big_paths)
  have 4: "files big_env ''/d/big.png''
             = Some (File \<lparr> byte_length = 6000000, utf8 = [], base64 = [] \<rparr>)"
    by (simp add: big_env_def)
  have 5: "byte_length \<lparr> byte_length = 6000000, utf8 = [], base64 = [] \<rparr> > 5242880"
    by simp
  have 6: "lint (map text_c (document_contents big_env ''big.md'')) = None"
    by (simp add: big_contents lint_def lint_block_def)
  have 7: "\<forall>q \<in> set (imagePaths (document_contents big_env ''big.md'')). readable big_env q"
    unfolding big_contents big_paths by (simp add: readable_def big_env_def)
  have 8: "checkImageNumberPerPost (document_contents big_env ''big.md'') = None"
    by (simp add: big_contents checkImageNumberPerPost_def checkContent_def checkImage_def)
  have 9: "find (oversized big_env) (imagePaths (document_contents big_env ''big.md''))
             = Some ''/d/big.png''"
    unfolding big_contents big_paths by (simp add: oversized_def big_env_def)
  from oversized_image_aborts_before_network [OF 1 2 3 4 5, of fake_server "[]"] 6 7 8 9
  show ?thesis
    by auto
qed


lemma both_contents:
  "document_contents both_env ''both.md''
     = [\<lparr> text_c = ''0/0\<newline>\<newline>'' @ replicate 300 (CHR ''a''), images = [''/d/big.png''] \<rparr>]"
  by code_simp

lemma both_paths:
  "imagePaths [\<lparr> text_c = ''0/0\<newline>\<newline>'' @ replicate 300 (CHR ''a''), images = [''/d/big.png''] \<rparr>]
     = [''/d/big.png'']"
  by (simp add: imagePaths_def first_occurrences_def enumerate_eq_zip)

text \<open>
  C9, as stated, fails: a document that shows an image of 6,000,000 bytes and is
  itself too long aborts with \<^verbatim>\<open>ContentTooLong\<close>, the length check running before
  the size check.
\<close>

theorem oversized_image_error_counterexample:
  "''/d/big.png'' \<in> set (imagePaths (document_contents both_env ''both.md''))
   \<and> files both_env ''/d/big.png''
       = Some (File \<lparr> byte_length = 6000000, utf8 = [], base64 = [] \<rparr>)
   \<and> post_command both_env fake_server [] ''both.md''
       = (Threw (ContentTooLong (''0/0\<newline>\<newline>'' @ replicate 275 (CHR ''a''))), [])"
proof -
  let ?c = "\<lparr> text_c = ''0/0\<newline>\<newline>'' @ replicate 300 (CHR ''a''), images = [''/d/big.png''] \<rparr>"
  have 1: "active_profile both_env"
    by (simp add: both_env_def)
  have 2: "files both_env ''both.md''
             = Some (File \<lparr> byte_length = 313,
                              utf8 = ''![a](big.png)'' @ replicate 300 (CHR ''a''), base64 = [] \<rparr>)"
    by (simp add: both_env_def)
  have 3: "find too_long (document_contents both_env ''both.md'') = Some ?c"
    by (simp add: both_contents too_long_def)
  have 4: "take 280 (text_c ?c) = ''0/0\<newline>\<newline>'' @ replicate 275 (CHR ''a'')"
    by simp
  have "prepare both_env ''both.md''
          = Inl (Threw (ContentTooLong (''0/0\<newline>\<newline>'' @ replicate 275 (CHR ''a''))))"
    using prepare_too_long [OF 1 2 3] unfolding 4 .
  then have "post_command both_env fake_server [] ''both.md''
       = (Threw (ContentTooLong (''0/0\<newline>\<newline>'' @ replicate 275 (CHR ''a''))), [])"
    by (simp add: post_command_def)
  moreover have "''/d/big.png'' \<in> set (imagePaths (document_contents both_env ''both.md''))"
    unfolding both_contents both_paths by simp
  moreover have "files both_env ''/d/big.png''
       = Some (File \<lparr> byte_length = 6000000, utf8 = [], base64 = [] \<rparr>)"
    by (simp add: both_env_def)
  ultimately show ?thesis by (intro conjI)
qed


section \<open>Properties of the uploader\<close>

lemma deliver_length [simp]: "length (pipes (deliver srv st i)) = length (pipes st)"
  by (simp add: deliver_def fail_def advance_def Let_def split: pipe.splits option.splits)

lemma deliver_out: "\<not> i < length (pipes st) \<Longrightarrow> deliver srv st i = st"
  by (simp add: deliver_def)

lemma deliver_other: "j \<noteq> i \<Longrightarrow> pipes (deliver srv st i) ! j = pipes st ! j"
  by (simp add: deliver_def fail_def advance_def Let_def split: pipe.splits option.splits)

lemma deliver_settled:
  "i < length (pipes st) \<Longrightarrow> remaining (pipes st ! i) = 0 \<Longrightarrow> deliver srv st i = st"
  by (cases "pipes st ! i") (simp_all add: deliver_def)

lemma deliver_remaining:
  "i < length (pipes st) \<Longrightarrow>
   remaining (pipes (deliver srv st i) ! i) \<le> remaining (pipes st ! i) - 1"
  by (cases "pipes st ! i")
     (simp_all add: deliver_def fail_def advance_def Let_def split: option.splits)

lemma deliver_data: "map pipe_data (pipes (deliver srv st i)) = map pipe_data (pipes st)"
proof (cases "i < length (pipes st)")
  case True
  then show ?thesis
    by (cases "pipes st ! i")
       (auto simp: deliver_def fail_def advance_def Let_def map_update list_update_same_conv
             split: option.splits)
next
  case False
  then show ?thesis by (simp add: deliver_out)
qed

lemma deliver_sent:
  "\<exists>cs. sent (deliver srv st i) = sent st @ cs \<and> (\<forall>c \<in> set cs. is_media c)"
  by (simp add: deliver_def fail_def advance_def Let_def split: pipe.splits option.splits)

lemma launch_sent:
  "\<exists>cs. sent (launch srv st d) = sent st @ cs \<and> (\<forall>c \<in> set cs. is_media c)"
  by (simp add: launch_def Let_def)

lemma media_only_deliver: "media_only log st \<Longrightarrow> media_only log (deliver srv st i)"
  unfolding media_only_def using deliver_sent [of srv st i] by fastforce

lemma media_only_launch: "media_only log st \<Longrightarrow> media_only log (launch srv st d)"
  unfolding media_only_def using launch_sent [of srv st d] by fastforce

lemma media_only_delivers: "media_only log st \<Longrightarrow> media_only log (foldl (deliver srv) st is)"
  by (induction "is" arbitrary: st) (simp_all add: media_only_deliver)

lemma media_only_launches: "media_only log st \<Longrightarrow> media_only log (foldl (launch srv) st ds)"
  by (induction ds arbitrary: st) (simp_all add: media_only_launch)

lemma upload_run_media_only: "media_only log (upload_run srv log sched data)"
  unfolding upload_run_def
  by (intro media_only_delivers media_only_launches) (simp add: media_only_def)

lemma rejection_ok_launch: "rejection_ok st \<Longrightarrow> rejection_ok (launch srv st d)"
  by (auto simp: rejection_ok_def launch_def Let_def nth_append less_Suc_eq split: option.splits)

lemma rejection_ok_deliver:
  assumes "rejection_ok st"
  shows "rejection_ok (deliver srv st i)"
proof (cases "i < length (pipes st)")
  case False
  with assms show ?thesis by (simp add: deliver_out)
next
  case True
  show ?thesis
  proof (cases "rejection st")
    case None
    with assms True show ?thesis
      by (cases "pipes st ! i")
         (auto simp: rejection_ok_def deliver_def fail_def advance_def Let_def nth_list_update
               split: option.splits)
  next
    case (Some e)
    with assms obtain j d where j: "j < length (pipes st)" "pipes st ! j = Failed d e"
      by (auto simp: rejection_ok_def)
    have rej: "rejection (deliver srv st i) = Some e"
      using Some by (simp add: deliver_def fail_def advance_def Let_def split: pipe.splits option.splits)
    have "pipes (deliver srv st i) ! j = Failed d e"
    proof (cases "j = i")
      case True
      with j have "deliver srv st i = st" by (intro deliver_settled) auto
      with j show ?thesis by simp
    next
      case False
      with j show ?thesis by (simp add: deliver_other)
    qed
    with rej j(1) show ?thesis
      by (auto simp: rejection_ok_def)
  qed
qed

lemma rejection_ok_delivers: "rejection_ok st \<Longrightarrow> rejection_ok (foldl (deliver srv) st is)"
  by (induction "is" arbitrary: st) (simp_all add: rejection_ok_deliver)

lemma rejection_ok_launches: "rejection_ok st \<Longrightarrow> rejection_ok (foldl (launch srv) st ds)"
  by (induction ds arbitrary: st) (simp_all add: rejection_ok_launch)

lemma upload_run_rejection_ok: "rejection_ok (upload_run srv log sched data)"
  unfolding upload_run_def
  by (intro rejection_ok_delivers rejection_ok_launches) (simp add: rejection_ok_def)

lemma remaining_le: "remaining p \<le> 3"
  by (cases p) simp_all

lemma deliver_mono:
  assumes "j < length (pipes st)"
  shows "remaining (pipes (deliver srv st i) ! j) \<le> remaining (pipes st ! j)"
proof (cases "j = i")
  case True
  with assms deliver_remaining [of i st srv] show ?thesis by simp
next
  case False
  then show ?thesis by (simp add: deliver_other)
qed

lemma delivers_length [simp]: "length (pipes (foldl (deliver srv) st is)) = length (pipes st)"
  by (induction "is" arbitrary: st) simp_all

lemma delivers_mono:
  assumes "j < length (pipes st)"
  shows "remaining (pipes (foldl (deliver srv) st is) ! j) \<le> remaining (pipes st ! j)"
  using assms
proof (induction "is" arbitrary: st)
  case Nil
  then show ?case by simp
next
  case (Cons i "is")
  from Cons.prems have "j < length (pipes (deliver srv st i))" by simp
  from Cons.IH [OF this] deliver_mono [OF Cons.prems, of srv i] show ?case
    by simp
qed

lemma deliver_thrice:
  assumes "i < length (pipes st)"
  shows "remaining (pipes (deliver srv (deliver srv (deliver srv st i) i) i) ! i) = 0"
proof -
  have 1: "remaining (pipes (deliver srv st i) ! i) \<le> 2"
    using deliver_remaining [OF assms, of srv] remaining_le [of "pipes st ! i"] by simp
  have 2: "remaining (pipes (deliver srv (deliver srv st i) i) ! i) \<le> 1"
    using deliver_remaining [of i "deliver srv st i" srv] assms 1 by simp
  show ?thesis
    using deliver_remaining [of i "deliver srv (deliver srv st i) i" srv] assms 2 by simp
qed

lemma drain_settles_set:
  assumes "j \<in> set xs" "j < length (pipes st)"
  shows "remaining (pipes (foldl (deliver srv) st (concat (map (\<lambda>i. [i, i, i]) xs))) ! j) = 0"
  using assms
proof (induction xs arbitrary: st)
  case Nil
  then show ?case by simp
next
  case (Cons x xs)
  let ?st = "deliver srv (deliver srv (deliver srv st x) x) x"
  have len: "j < length (pipes ?st)" using Cons.prems(2) by simp
  show ?case
  proof (cases "j \<in> set xs")
    case True
    from Cons.IH [OF True len] show ?thesis by simp
  next
    case False
    with Cons.prems have jx: "j = x" by simp
    with Cons.prems(2) have "remaining (pipes ?st ! j) = 0"
      by (simp add: deliver_thrice)
    with delivers_mono [OF len, of srv "concat (map (\<lambda>i. [i, i, i]) xs)"] show ?thesis
      by simp
  qed
qed

lemma launch_pipes:
  "map pipe_data (pipes (foldl (launch srv) st ds)) = map pipe_data (pipes st) @ ds"
  by (induction ds arbitrary: st) (simp_all add: launch_def Let_def)

lemma delivers_data:
  "map pipe_data (pipes (foldl (deliver srv) st is)) = map pipe_data (pipes st)"
  by (induction "is" arbitrary: st) (simp_all add: deliver_data)

lemma upload_run_data: "map pipe_data (pipes (upload_run srv log sched data)) = data"
  by (simp add: upload_run_def delivers_data launch_pipes)

lemma upload_run_length: "length (pipes (upload_run srv log sched data)) = length data"
  using upload_run_data [of srv log sched data, THEN arg_cong, of length] by simp

lemma upload_run_settled:
  assumes "j < length data"
  shows "remaining (pipes (upload_run srv log sched data) ! j) = 0"
proof -
  let ?st0 = "foldl (launch srv) \<lparr> pipes = [], sent = log, rejection = None \<rparr> data"
  let ?st1 = "foldl (deliver srv) ?st0 sched"
  have len0: "length (pipes ?st0) = length data"
    using launch_pipes [of srv "\<lparr> pipes = [], sent = log, rejection = None \<rparr>" data, THEN arg_cong, of length]
    by simp
  then have "j < length (pipes ?st1)" using assms by simp
  moreover have "j \<in> set [0..<length data]" using assms by simp
  ultimately have "remaining (pipes (foldl (deliver srv) ?st1 (drain (length data))) ! j) = 0"
    unfolding drain_def by (rule drain_settles_set [rotated])
  then show ?thesis by (simp add: upload_run_def)
qed

lemma results_of_done:
  assumes "\<forall>p \<in> set ps. remaining p = 0 \<and> \<not> failed p"
  shows "map path_u (List.map_filter result_of ps) = map (\<lambda>p. path (pipe_data p)) ps"
  using assms
proof (induction ps)
  case Nil
  then show ?case by (simp add: List.map_filter_simps)
next
  case (Cons p ps)
  then show ?case by (cases p) (simp_all add: List.map_filter_simps)
qed

lemma uploadImages_paths:
  assumes "uploadImages srv log sched data = (Inr ups, lg)"
  shows "map path_u ups = map path data"
proof -
  let ?st = "upload_run srv log sched data"
  from assms have rej: "rejection ?st = None" and ups: "ups = List.map_filter result_of (pipes ?st)"
    by (auto simp: uploadImages_def Let_def split: option.splits)
  from rej upload_run_rejection_ok [of srv log sched data]
  have nf: "\<forall>j < length (pipes ?st). \<not> failed (pipes ?st ! j)"
    by (simp add: rejection_ok_def)
  have "\<forall>p \<in> set (pipes ?st). remaining p = 0 \<and> \<not> failed p"
    using nf upload_run_settled [of _ data srv log sched] upload_run_length [of srv log sched data]
    by (auto simp: in_set_conv_nth)
  from results_of_done [OF this] have "map path_u ups = map (\<lambda>p. path (pipe_data p)) (pipes ?st)"
    by (simp add: ups)
  also have "\<dots> = map path (map pipe_data (pipes ?st))" by simp
  finally show ?thesis by (simp only: upload_run_data)
qed

lemma init_only_launch: "init_only log st \<Longrightarrow> init_only log (launch srv st d)"
  by (auto simp: init_only_def launch_def Let_def)

lemma counts_ok_launch:
  assumes "counts_ok log st" "init_only log st"
  shows "counts_ok log (launch srv st d)"
  using assms
  by (auto simp: counts_ok_def init_only_def launch_def Let_def appended_def finalized_def)

lemma sum_list_map_update:
  fixes f :: "'a \<Rightarrow> nat"
  assumes "i < length xs"
  shows "sum_list (map f (xs[i := y])) + f (xs ! i) = sum_list (map f xs) + f y"
proof -
  have "sum_list ((map f xs)[i := f y]) = sum_list (map f xs) + f y - map f xs ! i"
    using assms by (intro sum_list_update) simp
  moreover have "f (xs ! i) \<le> sum_list (map f xs)"
    using assms by (intro member_le_sum_list) simp_all
  ultimately show ?thesis
    using assms by (simp add: map_update)
qed

lemma counts_ok_deliver:
  assumes "counts_ok log st"
  shows "counts_ok log (deliver srv st i)"
proof (cases "i < length (pipes st) \<and> rejection st = None")
  case False
  then show ?thesis
    using assms
    by (auto simp: deliver_out counts_ok_def deliver_def fail_def advance_def Let_def
             split: pipe.splits option.splits)
next
  case True
  then have i: "i < length (pipes st)" and rej: "rejection st = None" by simp_all
  from assms rej obtain cs where cs: "sent st = log @ cs"
    "length (filter is_init cs) = length (pipes st)"
    "length (filter is_append cs) = sum_list (map appended (pipes st))"
    "length (filter is_finalize cs) = sum_list (map finalized (pipes st))"
    by (auto simp: counts_ok_def)
  note upd = sum_list_map_update [OF i, of appended] sum_list_map_update [OF i, of finalized]
  show ?thesis
  proof (cases "pipes st ! i")
    case (AwaitInit d r)
    with i rej cs upd [of "AwaitAppend d (media_id_string (the r)) (srv (sent st) (MediaAppend (media_id_string (the r)) (media_data d) 0))"]
    show ?thesis
      by (cases r) (auto simp: counts_ok_def deliver_def fail_def advance_def Let_def appended_def finalized_def)
  next
    case (AwaitAppend d m r)
    with i rej cs upd [of "AwaitFinalize d m (srv (sent st) (MediaFinalize m))"]
    show ?thesis
      by (cases r) (auto simp: counts_ok_def deliver_def fail_def advance_def Let_def appended_def finalized_def)
  next
    case (AwaitFinalize d m r)
    with i rej cs upd [of "Done d (media_id_string (the r))"]
    show ?thesis
      by (cases r) (auto simp: counts_ok_def deliver_def fail_def advance_def Let_def appended_def finalized_def)
  next
    case (Done d m)
    with i assms show ?thesis by (simp add: deliver_def)
  next
    case (Failed d e)
    with i assms show ?thesis by (simp add: deliver_def)
  qed
qed

lemma counts_ok_delivers: "counts_ok log st \<Longrightarrow> counts_ok log (foldl (deliver srv) st is)"
  by (induction "is" arbitrary: st) (simp_all add: counts_ok_deliver)

lemma counts_ok_launches:
  assumes "counts_ok log st" "init_only log st"
  shows "counts_ok log (foldl (launch srv) st ds)"
  using assms
  by (induction ds arbitrary: st) (simp_all add: counts_ok_launch init_only_launch)

lemma upload_run_counts_ok: "counts_ok log (upload_run srv log sched data)"
  unfolding upload_run_def
  by (intro counts_ok_delivers counts_ok_launches) (simp_all add: counts_ok_def init_only_def)

lemma sum_list_all_one:
  fixes f :: "'a \<Rightarrow> nat"
  shows "\<forall>x \<in> set xs. f x = 1 \<Longrightarrow> sum_list (map f xs) = length xs"
  by (induction xs) simp_all

lemma uploadImages_counts:
  assumes "uploadImages srv log sched data = (Inr ups, lg)"
  shows "\<exists>cs. lg = log @ cs \<and> (\<forall>c \<in> set cs. is_media c) \<and>
              length (filter is_init cs) = length data \<and>
              length (filter is_append cs) = length data \<and>
              length (filter is_finalize cs) = length data"
proof -
  let ?st = "upload_run srv log sched data"
  from assms have rej: "rejection ?st = None" and lg: "lg = sent ?st"
    by (auto simp: uploadImages_def Let_def split: option.splits)
  from upload_run_counts_ok [of log srv sched data] rej obtain cs where cs: "sent ?st = log @ cs"
    "length (filter is_init cs) = length (pipes ?st)"
    "length (filter is_append cs) = sum_list (map appended (pipes ?st))"
    "length (filter is_finalize cs) = sum_list (map finalized (pipes ?st))"
    by (auto simp: counts_ok_def)
  have settled: "\<forall>p \<in> set (pipes ?st). remaining p = 0"
    using upload_run_settled [of _ data srv log sched] upload_run_length [of srv log sched data]
    by (auto simp: in_set_conv_nth)
  then have "sum_list (map appended (pipes ?st)) = length (pipes ?st)"
    "sum_list (map finalized (pipes ?st)) = length (pipes ?st)"
    by (simp_all add: sum_list_all_one appended_def finalized_def)
  moreover from upload_run_media_only [of log srv sched data] cs(1)
  have "\<forall>c \<in> set cs. is_media c"
    by (auto simp: media_only_def)
  ultimately show ?thesis
    using cs lg upload_run_length [of srv log sched data] by auto
qed

lemma indexOf_Some:
  "x \<in> set arr \<Longrightarrow> \<exists>i < length arr. indexOf arr x = Some i \<and> arr ! i = x"
  by (induction arr) auto

lemma first_occurrences_distinct: "distinct (first_occurrences arr)"
  unfolding first_occurrences_def
  by (auto simp: distinct_map distinct_enumerate inj_on_def)

lemma first_occurrences_set: "set (first_occurrences arr) = set arr"
proof
  have "set (first_occurrences arr) \<subseteq> set (map snd (enumerate 0 arr))"
    unfolding first_occurrences_def set_map by (intro image_mono) simp
  then show "set (first_occurrences arr) \<subseteq> set arr"
    by (simp only: map_snd_enumerate)
  show "set arr \<subseteq> set (first_occurrences arr)"
  proof
    fix x assume "x \<in> set arr"
    from indexOf_Some [OF this]
    obtain i where i: "i < length arr" "indexOf arr x = Some i" "arr ! i = x"
      by blast
    from i(1,3) have "(i, x) \<in> set (enumerate 0 arr)"
      by (simp add: in_set_enumerate_eq)
    with i(2) have "(i, x) \<in> set (filter (\<lambda>(i, x). indexOf arr x = Some i) (enumerate 0 arr))"
      by simp
    then have "snd (i, x) \<in> snd ` set (filter (\<lambda>(i, x). indexOf arr x = Some i) (enumerate 0 arr))"
      by (rule imageI)
    then show "x \<in> set (first_occurrences arr)"
      by (simp add: first_occurrences_def)
  qed
qed

lemma foldl_images: "foldl (\<lambda>acc b. acc @ images b) xs cs = xs @ concat (map images cs)"
  by (induction cs arbitrary: xs) simp_all

lemma imagePaths_distinct: "distinct (imagePaths cs)"
  by (simp add: imagePaths_def first_occurrences_distinct)

lemma imagePaths_set: "set (imagePaths cs) = (\<Union>c \<in> set cs. set (images c))"
  by (simp add: imagePaths_def first_occurrences_set foldl_images)

lemma filter_eq_absent: "x \<notin> set xs \<Longrightarrow> filter (\<lambda>y. y = x) xs = []"
  by (induction xs) auto

lemma filter_eq_distinct:
  "distinct xs \<Longrightarrow> x \<in> set xs \<Longrightarrow> length (filter (\<lambda>y. y = x) xs) = 1"
  by (induction xs) (auto simp: filter_eq_absent)

lemma getImagesData_path: "getImagesData e p = Inr d \<Longrightarrow> path d = p"
  by (auto simp: getImagesData_def readFileSync_def split: option.splits entry.splits)

lemma read_paths:
  "list_all2 (\<lambda>p d. getImagesData e p = Inr d) ps ds \<Longrightarrow> map path ds = ps"
  by (induction rule: list_all2_induct) (simp_all add: getImagesData_path)

lemma prepare_Inr:
  assumes "prepare e filename = Inr (contents, imagesData)"
  shows "map path imagesData = imagePaths contents"
proof -
  from assms have "map_throwing (getImagesData e) (imagePaths contents) = Inr imagesData"
    by (simp add: prepare_def Let_def split: if_splits option.splits sum.splits)
  from read_paths [OF map_throwing_Inr [OF this]] show ?thesis .
qed

lemma find_path:
  assumes "p \<in> set (map path_u ups)"
  shows "\<exists>u. find (\<lambda>img. p = path_u img) ups = Some u"
  using assms by (induction ups) auto

lemma sent_at_append: "sent_at log h c \<Longrightarrow> sent_at (log @ cs) h c"
  by (auto simp: sent_at_def)

lemma sent_at_last: "sent_at (log @ [c]) log c"
  by (simp add: sent_at_def)

lemma answered_append: "answered srv log c r \<Longrightarrow> answered srv (log @ cs) c r"
  by (auto simp: answered_def intro: sent_at_append)

lemma origin_append: "origin srv log p \<Longrightarrow> origin srv (log @ cs) p"
proof (cases p)
  case (AwaitInit d r)
  assume "origin srv log p"
  with AwaitInit show ?thesis by (auto intro: sent_at_append)
next
  case (AwaitAppend d m r)
  assume "origin srv log p"
  with AwaitAppend show ?thesis by (auto intro: sent_at_append answered_append)
next
  case (AwaitFinalize d m r)
  assume "origin srv log p"
  with AwaitFinalize show ?thesis by (auto intro: sent_at_append answered_append)
next
  case (Done d m)
  assume "origin srv log p"
  with Done show ?thesis by (auto intro: answered_append)
next
  case (Failed d e)
  then show ?thesis by simp
qed

lemma origins_launch:
  assumes "origins srv st"
  shows "origins srv (launch srv st d)"
proof -
  have new: "origin srv (sent st @ [init_call d]) (AwaitInit d (srv (sent st) (init_call d)))"
    using sent_at_last [of "sent st" "init_call d"] by auto
  have old: "\<And>j. j < length (pipes st) \<Longrightarrow> origin srv (sent st @ [init_call d]) (pipes st ! j)"
    using assms by (simp add: origins_def origin_append)
  show ?thesis
    using new old
    by (auto simp: origins_def launch_def Let_def nth_append less_Suc_eq init_call_def [symmetric])
qed

lemma origins_update:
  assumes "origins srv st" "i < length (pipes st)" "origin srv (sent st @ cs) p"
  shows "origins srv (st \<lparr> pipes := (pipes st)[i := p], sent := sent st @ cs \<rparr>)"
  using assms by (auto simp: origins_def nth_list_update origin_append)

lemma origins_fail:
  assumes "origins srv st" "i < length (pipes st)"
  shows "origins srv (fail i d e st)"
  using assms by (auto simp: origins_def fail_def nth_list_update)

lemma origins_deliver:
  assumes "origins srv st"
  shows "origins srv (deliver srv st i)"
proof (cases "i < length (pipes st)")
  case False
  with assms show ?thesis by (simp add: deliver_out)
next
  case i: True
  from assms i have o: "origin srv (sent st) (pipes st ! i)"
    by (simp add: origins_def)
  show ?thesis
  proof (cases "pipes st ! i")
    case (AwaitInit d resp)
    show ?thesis
    proof (cases resp)
      case None
      with AwaitInit i assms show ?thesis by (simp add: deliver_def origins_fail)
    next
      case (Some r1)
      let ?c = "append_call (media_id_string r1) d"
      from o AwaitInit
      obtain h where h: "sent_at (sent st) h (init_call d)" "resp = srv h (init_call d)"
        by auto
      with Some have a: "answered srv (sent st) (init_call d) r1"
        unfolding answered_def by (intro exI [of _ h]) simp
      have "origin srv (sent st @ [?c]) (AwaitAppend d (media_id_string r1) (srv (sent st) ?c))"
        using answered_append [OF a, of "[?c]"] sent_at_last [of "sent st" ?c] by auto
      from origins_update [OF assms i this] AwaitInit Some i show ?thesis
        by (simp add: deliver_def advance_def Let_def append_call_def)
    qed
  next
    case (AwaitAppend d m resp)
    show ?thesis
    proof (cases resp)
      case None
      with AwaitAppend i assms show ?thesis by (simp add: deliver_def origins_fail)
    next
      case (Some r2)
      let ?c = "MediaFinalize m"
      from o AwaitAppend
      have "\<exists>r1. answered srv (sent st) (init_call d) r1 \<and> m = media_id_string r1 \<and>
           (\<exists>h. sent_at (sent st) h (append_call m d) \<and> resp = srv h (append_call m d))"
        by simp
      then obtain r1 h where a1: "answered srv (sent st) (init_call d) r1"
        "m = media_id_string r1"
        and h: "sent_at (sent st) h (append_call m d)" "resp = srv h (append_call m d)"
        by blast
      from h Some have "answered srv (sent st) (append_call m d) r2"
        unfolding answered_def by (intro exI [of _ h]) simp
      note a = a1 this
      have "origin srv (sent st @ [?c]) (AwaitFinalize d m (srv (sent st) ?c))"
        using answered_append [OF a(1), of "[?c]"] answered_append [OF a(3), of "[?c]"] a(2)
          sent_at_last [of "sent st" ?c] by auto
      from origins_update [OF assms i this] AwaitAppend Some i show ?thesis
        by (simp add: deliver_def advance_def Let_def)
    qed
  next
    case (AwaitFinalize d m resp)
    show ?thesis
    proof (cases resp)
      case None
      with AwaitFinalize i assms show ?thesis by (simp add: deliver_def origins_fail)
    next
      case (Some r3)
      show ?thesis
      proof (cases "truthy (error_field r3)")
        case True
        with AwaitFinalize Some i assms show ?thesis by (simp add: deliver_def origins_fail)
      next
        case False
        from o AwaitFinalize
        have "\<exists>r1 r2. answered srv (sent st) (init_call d) r1 \<and> m = media_id_string r1 \<and>
              answered srv (sent st) (append_call m d) r2 \<and>
              (\<exists>h. sent_at (sent st) h (MediaFinalize m) \<and> resp = srv h (MediaFinalize m))"
          by simp
        then obtain r1 r2 h where a: "answered srv (sent st) (init_call d) r1"
          "m = media_id_string r1" "answered srv (sent st) (append_call m d) r2"
          and h: "sent_at (sent st) h (MediaFinalize m)" "resp = srv h (MediaFinalize m)"
          by blast
        from h Some have "answered srv (sent st) (MediaFinalize m) r3"
          unfolding answered_def by (intro exI [of _ h]) simp
        with a False have "origin srv (sent st @ []) (Done d (media_id_string r3))"
          by auto
        from origins_update [OF assms i this] AwaitFinalize Some False i show ?thesis
          by (simp add: deliver_def)
      qed
    qed
  next
    case (Done d m)
    with i assms show ?thesis by (simp add: deliver_def)
  next
    case (Failed d e)
    with i assms show ?thesis by (simp add: deliver_def)
  qed
qed

lemma origins_delivers: "origins srv st \<Longrightarrow> origins srv (foldl (deliver srv) st is)"
  by (induction "is" arbitrary: st) (simp_all add: origins_deliver)

lemma origins_launches: "origins srv st \<Longrightarrow> origins srv (foldl (launch srv) st ds)"
  by (induction ds arbitrary: st) (simp_all add: origins_launch)

lemma upload_run_origins: "origins srv (upload_run srv log sched data)"
  unfolding upload_run_def
  by (intro origins_delivers origins_launches) (simp add: origins_def)


lemma results_aligned:
  assumes "\<forall>q \<in> set ps. remaining q = 0 \<and> \<not> failed q"
  shows "list_all2 (\<lambda>q u. \<exists>d m. q = Done d m \<and> u = \<lparr> path_u = path d, mediaId = m \<rparr>)
           ps (List.map_filter result_of ps)"
  using assms
proof (induction ps)
  case Nil
  then show ?case by (simp add: List.map_filter_simps)
next
  case (Cons q ps)
  then show ?case by (cases q) (simp_all add: List.map_filter_simps)
qed

lemma uploadImages_results:
  assumes "uploadImages srv log sched data = (Inr ups, lg)"
  shows "list_all2 (\<lambda>q u. \<exists>d m. q = Done d m \<and> u = \<lparr> path_u = path d, mediaId = m \<rparr>)
           (pipes (upload_run srv log sched data)) ups
         \<and> lg = sent (upload_run srv log sched data)"
proof -
  let ?st = "upload_run srv log sched data"
  from assms have rej: "rejection ?st = None" and ups: "ups = List.map_filter result_of (pipes ?st)"
    and lg: "lg = sent ?st"
    by (auto simp: uploadImages_def Let_def split: option.splits)
  from rej upload_run_rejection_ok [of srv log sched data]
  have nf: "\<forall>j < length (pipes ?st). \<not> failed (pipes ?st ! j)"
    by (simp add: rejection_ok_def)
  have "\<forall>q \<in> set (pipes ?st). remaining q = 0 \<and> \<not> failed q"
    using nf upload_run_settled [of _ data srv log sched] upload_run_length [of srv log sched data]
    by (auto simp: in_set_conv_nth)
  from results_aligned [OF this] ups lg show ?thesis by simp
qed

lemma find_in_set:
  "find P xs = Some x \<Longrightarrow> \<exists>k < length xs. xs ! k = x \<and> P x"
  by (auto simp: find_Some_iff)

text \<open>
  C3: in a run that passes the checks and whose uploads succeed, a path referenced by
  the Contents (once or several times, in one Content or several) has exactly one
  upload pipeline; the requests of the uploads are one INIT, one APPEND and one
  FINALIZE for each distinct path; and every reference to the path, in every
  Content, resolves to one and the same media id, which is the id in the response to
  the FINALIZE of that pipeline: the pipeline of the image of that path is done with
  this id, after an INIT for the image, an APPEND and a FINALIZE with the id of the
  response to the INIT, all three in the log and answered by the service.
\<close>

theorem upload_once_per_path:
  assumes "prepare e filename = Inr (contents, imagesData)"
    and "uploadImages srv [] sched imagesData = (Inr pathAndImageId, log)"
    and "c \<in> set contents" "p \<in> set (images c)"
  shows "length (filter (\<lambda>q. path (pipe_data q) = p) (pipes (upload_run srv [] sched imagesData))) = 1
    \<and> length (filter is_init log) = length imagesData
    \<and> length (filter is_append log) = length imagesData
    \<and> length (filter is_finalize log) = length imagesData
    \<and> (\<exists>d r1 r2 r3.
          d \<in> set imagesData \<and> path d = p \<and>
          Done d (media_id_string r3) \<in> set (pipes (upload_run srv [] sched imagesData)) \<and>
          answered srv log (init_call d) r1 \<and>
          answered srv log (append_call (media_id_string r1) d) r2 \<and>
          answered srv log (MediaFinalize (media_id_string r1)) r3 \<and>
          \<lparr> path_u = p, mediaId = media_id_string r3 \<rparr> \<in> set pathAndImageId \<and>
          (\<forall>c' \<in> set contents. \<forall>k < length (images c').
              images c' ! k = p \<longrightarrow>
              mediaIds (postContent pathAndImageId c') ! k = Some (media_id_string r3)))"
proof -
  let ?st = "upload_run srv [] sched imagesData"
  have paths: "map path imagesData = imagePaths contents"
    using assms(1) by (rule prepare_Inr)
  have p: "p \<in> set (imagePaths contents)"
    using assms(3,4) by (auto simp: imagePaths_set)
  have "filter (\<lambda>q. path (pipe_data q) = p) (pipes ?st)
          = filter ((\<lambda>y. y = p) \<circ> (\<lambda>q. path (pipe_data q))) (pipes ?st)"
    by (simp add: comp_def)
  then have "length (filter (\<lambda>q. path (pipe_data q) = p) (pipes ?st))
          = length (filter (\<lambda>y. y = p) (map (\<lambda>q. path (pipe_data q)) (pipes ?st)))"
    by (simp only: filter_map length_map)
  also have "map (\<lambda>q. path (pipe_data q)) (pipes ?st) = map path (map pipe_data (pipes ?st))"
    by simp
  also have "\<dots> = imagePaths contents"
    by (simp only: upload_run_data paths)
  finally have one: "length (filter (\<lambda>q. path (pipe_data q) = p) (pipes ?st)) = 1"
    using filter_eq_distinct [OF imagePaths_distinct p] by simp
  from uploadImages_counts [OF assms(2)]
  have counts: "length (filter is_init log) = length imagesData"
    "length (filter is_append log) = length imagesData"
    "length (filter is_finalize log) = length imagesData"
    by auto
  from uploadImages_results [OF assms(2)]
  have al: "list_all2 (\<lambda>q u. \<exists>d m. q = Done d m \<and> u = \<lparr> path_u = path d, mediaId = m \<rparr>)
              (pipes ?st) pathAndImageId"
    and log: "log = sent ?st"
    by simp_all
  have "p \<in> set (map path_u pathAndImageId)"
    using uploadImages_paths [OF assms(2)] paths p by simp
  then obtain u where u: "find (\<lambda>img. p = path_u img) pathAndImageId = Some u"
    using find_path by blast
  from find_in_set [OF u] obtain k where k: "k < length pathAndImageId"
    "pathAndImageId ! k = u" "p = path_u u"
    by blast
  from al k(1) have kp: "k < length (pipes ?st)"
    by (simp add: list_all2_lengthD)
  from list_all2_nthD2 [OF al k(1)] k(2) obtain d m where
    dm: "pipes ?st ! k = Done d m" "u = \<lparr> path_u = path d, mediaId = m \<rparr>"
    by auto
  from dm(2) k(3) have pd: "path d = p" and mu: "mediaId u = m"
    by simp_all
  have "map pipe_data (pipes ?st) ! k = d"
    using kp dm(1) by simp
  then have din: "d \<in> set imagesData"
    using kp upload_run_data [of srv "[]" sched imagesData] upload_run_length [of srv "[]" sched imagesData]
    by (metis nth_mem)
  have done_in: "Done d m \<in> set (pipes ?st)"
    using kp dm(1) by (metis nth_mem)
  from upload_run_origins [of srv "[]" sched imagesData] kp dm(1)
  have "origin srv (sent ?st) (Done d m)"
    by (auto simp: origins_def)
  then obtain r1 r2 r3 where r: "answered srv log (init_call d) r1"
    "answered srv log (append_call (media_id_string r1) d) r2"
    "answered srv log (MediaFinalize (media_id_string r1)) r3"
    "m = media_id_string r3"
    unfolding log by auto
  have uin: "\<lparr> path_u = p, mediaId = media_id_string r3 \<rparr> \<in> set pathAndImageId"
    using k(1,2) dm(2) pd r(4) by (metis nth_mem)
  have same: "\<forall>c' \<in> set contents. \<forall>k < length (images c').
              images c' ! k = p \<longrightarrow>
              mediaIds (postContent pathAndImageId c') ! k = Some (media_id_string r3)"
    using u mu r(4) by (auto simp: postContent_def)
  from din pd done_in r uin same
  have "\<exists>d r1 r2 r3.
          d \<in> set imagesData \<and> path d = p \<and>
          Done d (media_id_string r3) \<in> set (pipes ?st) \<and>
          answered srv log (init_call d) r1 \<and>
          answered srv log (append_call (media_id_string r1) d) r2 \<and>
          answered srv log (MediaFinalize (media_id_string r1)) r3 \<and>
          \<lparr> path_u = p, mediaId = media_id_string r3 \<rparr> \<in> set pathAndImageId \<and>
          (\<forall>c' \<in> set contents. \<forall>k < length (images c').
              images c' ! k = p \<longrightarrow>
              mediaIds (postContent pathAndImageId c') ! k = Some (media_id_string r3))"
    by (intro exI [of _ d] exI [of _ r1] exI [of _ r2] exI [of _ r3]) simp
  with one counts show ?thesis by (intro conjI)
qed


text \<open>
  C2: when the pipeline of any image throws, the upload operation fails with the
  exception of a pipeline, the command throws it, and the requests sent are media
  requests only: no status update is sent. In particular a finalize response with an
  error indicator makes its pipeline throw \<^verbatim>\<open>UploadFailed\<close> with that error, without
  a request sent then or at any later arrival (no retry).
\<close>

theorem upload_failure_posts_nothing:
  assumes "j < length imagesData" "failed (pipes (upload_run srv [] sched imagesData) ! j)"
  shows "(\<exists>err. (\<exists>k d'. k < length imagesData \<and>
                        pipes (upload_run srv [] sched imagesData) ! k = Failed d' err) \<and>
               uploadImages srv [] sched imagesData
                  = (Inl err, sent (upload_run srv [] sched imagesData)) \<and>
               publish srv sched contents imagesData
                  = (Threw err, sent (upload_run srv [] sched imagesData)) \<and>
               (prepare e filename = Inr (contents, imagesData) \<longrightarrow>
                  post_command e srv sched filename
                    = (Threw err, sent (upload_run srv [] sched imagesData))))
         \<and> (\<forall>c \<in> set (sent (upload_run srv [] sched imagesData)). is_media c)
         \<and> (i < length (pipes st) \<and> pipes st ! i = AwaitFinalize d m (Some r) \<and> truthy (error_field r)
              \<longrightarrow> (\<exists>msg. error_field r = Some msg \<and>
                         pipes (deliver srv st i) ! i = Failed d (UploadFailed msg)) \<and>
                  sent (deliver srv st i) = sent st \<and>
                  deliver srv (deliver srv st i) i = deliver srv st i)"
proof -
  let ?st = "upload_run srv [] sched imagesData"
  from assms upload_run_rejection_ok [of srv "[]" sched imagesData]
  obtain err where err: "rejection ?st = Some err"
    by (cases "rejection ?st") (auto simp: rejection_ok_def upload_run_length)
  with upload_run_rejection_ok [of srv "[]" sched imagesData]
  have thrown: "\<exists>k d'. k < length imagesData \<and> pipes ?st ! k = Failed d' err"
    by (simp add: rejection_ok_def upload_run_length)
  from err have up: "uploadImages srv [] sched imagesData = (Inl err, sent ?st)"
    by (simp add: uploadImages_def)
  then have pub: "publish srv sched contents imagesData = (Threw err, sent ?st)"
    by (simp add: publish_def)
  then have cmd: "prepare e filename = Inr (contents, imagesData) \<longrightarrow>
                  post_command e srv sched filename = (Threw err, sent ?st)"
    by (simp add: post_command_def)
  have media: "\<forall>c \<in> set (sent ?st). is_media c"
    using upload_run_media_only [of "[]" srv sched imagesData] by (auto simp: media_only_def)
  have step: "i < length (pipes st) \<and> pipes st ! i = AwaitFinalize d m (Some r) \<and> truthy (error_field r)
              \<longrightarrow> (\<exists>msg. error_field r = Some msg \<and>
                         pipes (deliver srv st i) ! i = Failed d (UploadFailed msg)) \<and>
                  sent (deliver srv st i) = sent st \<and>
                  deliver srv (deliver srv st i) i = deliver srv st i"
  proof (intro impI, elim conjE)
    assume i: "i < length (pipes st)" and p: "pipes st ! i = AwaitFinalize d m (Some r)"
      and t: "truthy (error_field r)"
    from t obtain msg where msg: "error_field r = Some msg"
      by (cases "error_field r") (simp_all add: truthy_def)
    from i p t msg have d: "deliver srv st i = fail i d (UploadFailed msg) st"
      by (simp add: deliver_def)
    from i have f: "pipes (fail i d (UploadFailed msg) st) ! i = Failed d (UploadFailed msg)"
      "sent (fail i d (UploadFailed msg) st) = sent st"
      by (simp_all add: fail_def)
    from i f(1) have "deliver srv (fail i d (UploadFailed msg) st) i = fail i d (UploadFailed msg) st"
      by (intro deliver_settled) (simp_all add: fail_def)
    with msg d f show "(\<exists>msg. error_field r = Some msg \<and>
                         pipes (deliver srv st i) ! i = Failed d (UploadFailed msg)) \<and>
                  sent (deliver srv st i) = sent st \<and>
                  deliver srv (deliver srv st i) i = deliver srv st i"
      by simp
  qed
  from thrown up pub cmd
  have "\<exists>err. (\<exists>k d'. k < length imagesData \<and> pipes ?st ! k = Failed d' err) \<and>
               uploadImages srv [] sched imagesData = (Inl err, sent ?st) \<and>
               publish srv sched contents imagesData = (Threw err, sent ?st) \<and>
               (prepare e filename = Inr (contents, imagesData) \<longrightarrow>
                  post_command e srv sched filename = (Threw err, sent ?st))"
    by (intro exI [of _ err] conjI)
  with media step show ?thesis by (intro conjI)
qed

lemma show_nat_small: "n < 10 \<Longrightarrow> show_nat n = [''0123456789'' ! n]"
  by (simp add: show_nat.simps)

lemma prepare_passes:
  assumes "active_profile e" "files e filename = Some (File f)"
    "document_contents e filename = cs"
    "lint (map text_c cs) = None"
    "for_each (checkFileExists e) (imagePaths cs) = None"
    "checkImageNumberPerPost cs = None"
    "map_throwing (getImagesData e) (imagePaths cs) = Inr ds"
    "for_each checkImageSize ds = None"
    "answer e = ''y'' \<or> answer e = ''Y''"
  shows "prepare e filename = Inr (cs, ds)"
proof -
  have mb: "makeBlocks e filename = Inr (makeBlocks_text (utf8 f))"
    using assms(2) by (simp add: makeBlocks_def readFileSync_def)
  have cs: "extractImage (makeBlocks_text (utf8 f)) (resolve_dirname e filename) = cs"
    using assms(3) by (simp add: document_contents_def mb)
  have ex: "checkFileExists e filename = None"
    using assms(2) by (simp add: checkFileExists_def)
  show ?thesis
    using assms(1,4-9) by (auto simp: prepare_def ex mb cs Let_def)
qed

lemma shared_contents:
  "document_contents shared_env ''shared.md''
     = [\<lparr> text_c = ''0/1\<newline>\<newline>A '', images = [''/d/a.png''] \<rparr>,
        \<lparr> text_c = ''1/1\<newline>\<newline>B '', images = [''/d/a.png''] \<rparr>]"
  by code_simp

lemma shared_paths:
  "imagePaths [\<lparr> text_c = ''0/1\<newline>\<newline>A '', images = [''/d/a.png''] \<rparr>,
        \<lparr> text_c = ''1/1\<newline>\<newline>B '', images = [''/d/a.png''] \<rparr>] = [''/d/a.png'']"
  by (simp add: imagePaths_def first_occurrences_def enumerate_eq_zip)

lemma extname_a: "extname ''/d/a.png'' = ''.png''"
  by (simp add: extname_def last_component_def)

lemma shared_prepare:
  "prepare shared_env ''shared.md''
     = Inr ([\<lparr> text_c = ''0/1\<newline>\<newline>A '', images = [''/d/a.png''] \<rparr>,
             \<lparr> text_c = ''1/1\<newline>\<newline>B '', images = [''/d/a.png''] \<rparr>],
            [\<lparr> path = ''/d/a.png'', total_bytes = 3, media_type = ''image/png'',
               media_data = ''QUJD'' \<rparr>])"
proof (rule prepare_passes [OF _ _ shared_contents])
  show "active_profile shared_env" by (simp add: shared_env_def)
  show "files shared_env ''shared.md'' = Some (File \<lparr> byte_length = 31,
          utf8 = ''A ![x](a.png)---B ![y](./a.png)'', base64 = [] \<rparr>)"
    by (simp add: shared_env_def)
  show "lint (map text_c [\<lparr> text_c = ''0/1\<newline>\<newline>A '', images = [''/d/a.png''] \<rparr>,
             \<lparr> text_c = ''1/1\<newline>\<newline>B '', images = [''/d/a.png''] \<rparr>]) = None"
    by (simp add: lint_def lint_block_def)
  show "for_each (checkFileExists shared_env) (imagePaths [\<lparr> text_c = ''0/1\<newline>\<newline>A '', images = [''/d/a.png''] \<rparr>,
             \<lparr> text_c = ''1/1\<newline>\<newline>B '', images = [''/d/a.png''] \<rparr>]) = None"
    unfolding shared_paths by (simp add: checkFileExists_def shared_env_def)
  show "checkImageNumberPerPost [\<lparr> text_c = ''0/1\<newline>\<newline>A '', images = [''/d/a.png''] \<rparr>,
             \<lparr> text_c = ''1/1\<newline>\<newline>B '', images = [''/d/a.png''] \<rparr>] = None"
    by (simp add: checkImageNumberPerPost_def checkContent_def checkImage_def extname_a)
  show "map_throwing (getImagesData shared_env) (imagePaths [\<lparr> text_c = ''0/1\<newline>\<newline>A '', images = [''/d/a.png''] \<rparr>,
             \<lparr> text_c = ''1/1\<newline>\<newline>B '', images = [''/d/a.png''] \<rparr>])
        = Inr [\<lparr> path = ''/d/a.png'', total_bytes = 3, media_type = ''image/png'',
               media_data = ''QUJD'' \<rparr>]"
    unfolding shared_paths
    by (simp add: getImagesData_def readFileSync_def shared_env_def extname_a)
  show "for_each checkImageSize [\<lparr> path = ''/d/a.png'', total_bytes = 3, media_type = ''image/png'',
               media_data = ''QUJD'' \<rparr>] = None"
    by (simp add: checkImageSize_def)
  show "answer shared_env = ''y'' \<or> answer shared_env = ''Y''"
    by (simp add: shared_env_def)
qed

lemma shared_upload:
  "uploadImages fake_server [] []
     [\<lparr> path = ''/d/a.png'', total_bytes = 3, media_type = ''image/png'', media_data = ''QUJD'' \<rparr>]
   = (Inr [\<lparr> path_u = ''/d/a.png'', mediaId = ''m2'' \<rparr>],
      [MediaInit 3 ''image/png'', MediaAppend ''m0'' ''QUJD'' 0, MediaFinalize ''m0''])"
  by (simp add: uploadImages_def upload_run_def drain_def launch_def deliver_def advance_def fail_def
        fake_server_def truthy_def show_nat_small List.map_filter_simps Let_def)

lemma failing_upload:
  "uploadImages failing_server [] []
     [\<lparr> path = ''/d/a.png'', total_bytes = 3, media_type = ''image/png'', media_data = ''QUJD'' \<rparr>]
   = (Inl (UploadFailed ''InvalidMedia''),
      [MediaInit 3 ''image/png'', MediaAppend ''m0'' ''QUJD'' 0, MediaFinalize ''m0''])"
  by (simp add: uploadImages_def upload_run_def drain_def launch_def deliver_def advance_def fail_def
        fake_server_def failing_server_def truthy_def show_nat_small Let_def)

lemma failing_run:
  "failed (pipes (upload_run failing_server [] []
     [\<lparr> path = ''/d/a.png'', total_bytes = 3, media_type = ''image/png'', media_data = ''QUJD'' \<rparr>]) ! 0)"
  by (simp add: upload_run_def drain_def launch_def deliver_def advance_def fail_def
        fake_server_def failing_server_def truthy_def show_nat_small Let_def)


theorem upload_once_per_path_witness:
  "length (filter (\<lambda>q. path (pipe_data q) = ''/d/a.png'')
         (pipes (upload_run fake_server [] []
            [\<lparr> path = ''/d/a.png'', total_bytes = 3, media_type = ''image/png'',
               media_data = ''QUJD'' \<rparr>]))) = 1
   \<and> length (filter is_init [MediaInit 3 ''image/png'', MediaAppend ''m0'' ''QUJD'' 0,
                              MediaFinalize ''m0'']) = 1
   \<and> mediaIds (postContent [\<lparr> path_u = ''/d/a.png'', mediaId = ''m2'' \<rparr>]
                  \<lparr> text_c = ''0/1\<newline>\<newline>A '', images = [''/d/a.png''] \<rparr>) ! 0 = Some ''m2''
   \<and> mediaIds (postContent [\<lparr> path_u = ''/d/a.png'', mediaId = ''m2'' \<rparr>]
                  \<lparr> text_c = ''1/1\<newline>\<newline>B '', images = [''/d/a.png''] \<rparr>) ! 0 = Some ''m2''"
proof -
  let ?c0 = "\<lparr> text_c = ''0/1\<newline>\<newline>A '', images = [''/d/a.png''] \<rparr>"
  let ?c1 = "\<lparr> text_c = ''1/1\<newline>\<newline>B '', images = [''/d/a.png''] \<rparr>"
  let ?ups = "[\<lparr> path_u = ''/d/a.png'', mediaId = ''m2'' \<rparr>]"
  have c: "?c0 \<in> set [?c0, ?c1]" by simp
  have p: "''/d/a.png'' \<in> set (images ?c0)" by simp
  let ?d = "\<lparr> path = ''/d/a.png'', total_bytes = 3, media_type = ''image/png'',
               media_data = ''QUJD'' \<rparr>"
  let ?log = "[MediaInit 3 ''image/png'', MediaAppend ''m0'' ''QUJD'' 0, MediaFinalize ''m0'']"
  note t = upload_once_per_path [OF shared_prepare shared_upload c p]
  from t have one: "length (filter (\<lambda>q. path (pipe_data q) = ''/d/a.png'')
         (pipes (upload_run fake_server [] [] [?d]))) = 1"
    by (elim conjE) assumption
  from t have init: "length (filter is_init ?log) = length [?d]"
    by (elim conjE) assumption
  let ?Q = "\<lambda>d r1 r2 r3.
          d \<in> set [?d] \<and> path d = ''/d/a.png'' \<and>
          Done d (media_id_string r3) \<in> set (pipes (upload_run fake_server [] [] [?d])) \<and>
          answered fake_server ?log (init_call d) r1 \<and>
          answered fake_server ?log (append_call (media_id_string r1) d) r2 \<and>
          answered fake_server ?log (MediaFinalize (media_id_string r1)) r3 \<and>
          \<lparr> path_u = ''/d/a.png'', mediaId = media_id_string r3 \<rparr> \<in> set ?ups \<and>
          (\<forall>c' \<in> set [?c0, ?c1]. \<forall>k < length (images c').
              images c' ! k = ''/d/a.png'' \<longrightarrow>
              mediaIds (postContent ?ups c') ! k = Some (media_id_string r3))"
  from t have "\<exists>d r1 r2 r3. ?Q d r1 r2 r3"
    by (elim conjE) assumption
  then obtain d where "\<exists>r1 r2 r3. ?Q d r1 r2 r3" ..
  then obtain r1 where "\<exists>r2 r3. ?Q d r1 r2 r3" ..
  then obtain r2 where "\<exists>r3. ?Q d r1 r2 r3" ..
  then obtain r3 where q: "?Q d r1 r2 r3" ..
  from q have uin: "\<lparr> path_u = ''/d/a.png'', mediaId = media_id_string r3 \<rparr> \<in> set ?ups"
    by (elim conjE) assumption
  from q have same: "\<forall>c' \<in> set [?c0, ?c1]. \<forall>k < length (images c').
              images c' ! k = ''/d/a.png'' \<longrightarrow>
              mediaIds (postContent ?ups c') ! k = Some (media_id_string r3)"
    by (elim conjE) assumption
  from uin have m: "media_id_string r3 = ''m2''" by simp
  from same have "mediaIds (postContent ?ups ?c0) ! 0 = Some (media_id_string r3)"
    "mediaIds (postContent ?ups ?c1) ! 0 = Some (media_id_string r3)"
    by simp_all
  with one init m show ?thesis by (simp only: list.size) simp
qed

theorem upload_failure_posts_nothing_witness:
  "post_command shared_env failing_server [] ''shared.md''
     = (Threw (UploadFailed ''InvalidMedia''),
        [MediaInit 3 ''image/png'', MediaAppend ''m0'' ''QUJD'' 0, MediaFinalize ''m0''])
   \<and> pipes (deliver failing_server
         \<lparr> pipes = [AwaitFinalize \<lparr> path = ''/d/a.png'', total_bytes = 3, media_type = ''image/png'',
                       media_data = ''QUJD'' \<rparr> ''m0''
                      (Some \<lparr> id_str = [], media_id_string = ''m0'', error_field = Some ''InvalidMedia'' \<rparr>)],
           sent = [], rejection = None \<rparr> 0) ! 0
     = Failed \<lparr> path = ''/d/a.png'', total_bytes = 3, media_type = ''image/png'',
                 media_data = ''QUJD'' \<rparr> (UploadFailed ''InvalidMedia'')"
proof -
  let ?d = "\<lparr> path = ''/d/a.png'', total_bytes = 3, media_type = ''image/png'', media_data = ''QUJD'' \<rparr>"
  let ?r = "\<lparr> id_str = [], media_id_string = ''m0'', error_field = Some ''InvalidMedia'' \<rparr>"
  let ?st = "\<lparr> pipes = [AwaitFinalize ?d ''m0'' (Some ?r)], sent = [], rejection = None \<rparr>"
  let ?cs = "[\<lparr> text_c = ''0/1\<newline>\<newline>A '', images = [''/d/a.png''] \<rparr>,
              \<lparr> text_c = ''1/1\<newline>\<newline>B '', images = [''/d/a.png''] \<rparr>]"
  have 1: "0 < length [?d]" by simp
  have hyp: "0 < length (pipes ?st) \<and> pipes ?st ! 0 = AwaitFinalize ?d ''m0'' (Some ?r)
               \<and> truthy (error_field ?r)"
    by (simp add: truthy_def)
  from upload_failure_posts_nothing [OF 1 failing_run, of ?cs shared_env "''shared.md''" 0 ?st ?d "''m0''" ?r]
  obtain err msg where up: "uploadImages failing_server [] [] [?d]
                          = (Inl err, sent (upload_run failing_server [] [] [?d]))"
    and cmd: "post_command shared_env failing_server [] ''shared.md''
                = (Threw err, sent (upload_run failing_server [] [] [?d]))"
    and msg: "error_field ?r = Some msg"
             "pipes (deliver failing_server ?st 0) ! 0 = Failed ?d (UploadFailed msg)"
    using shared_prepare hyp by blast
  from up have "err = UploadFailed ''InvalidMedia''"
    "sent (upload_run failing_server [] [] [?d])
       = [MediaInit 3 ''image/png'', MediaAppend ''m0'' ''QUJD'' 0, MediaFinalize ''m0'']"
    by (simp_all add: failing_upload)
  moreover from msg(1) have "msg = ''InvalidMedia''" by simp
  ultimately show ?thesis using cmd msg(2) by simp
qed

section \<open>The example of the specification\<close>

lemma split_no_slash: "CHR ''/'' \<notin> set s \<Longrightarrow> split ''/'' s = [s]"
proof (induction s)
  case Nil
  then show ?case by (subst split.simps) simp
next
  case (Cons c s)
  then show ?case by (subst split.simps) simp
qed

lemma split_slash_seg:
  "CHR ''/'' \<notin> set s \<Longrightarrow> split ''/'' (s @ CHR ''/'' # rest) = s # split ''/'' rest"
proof (induction s)
  case Nil
  then show ?case by (subst split.simps) simp
next
  case (Cons c s)
  then show ?case by (subst split.simps) simp
qed

lemma split_after:
  assumes "CHR ''/'' \<notin> set s" "\<forall>t \<in> set l. CHR ''/'' \<notin> set t"
  shows "split ''/'' (s @ absolute l) = s # l"
  using assms
proof (induction l arbitrary: s)
  case Nil
  then show ?case by (simp add: absolute_def split_no_slash)
next
  case (Cons t l)
  have "s @ absolute (t # l) = s @ CHR ''/'' # (t @ absolute l)"
    by (simp add: absolute_def)
  with Cons show ?case by (simp add: split_slash_seg)
qed

lemma split_absolute:
  assumes "\<forall>t \<in> set l. CHR ''/'' \<notin> set t"
  shows "split ''/'' (absolute l) = [] # l"
  using split_after [of "[]" l] assms by simp

lemma foldl_plain:
  "\<forall>s \<in> set segs. plain s \<Longrightarrow> foldl (norm_step a) res segs = res @ segs"
  by (induction segs arbitrary: res) (simp_all add: norm_step_def plain_def)

lemma absolute_join: "l \<noteq> [] \<Longrightarrow> absolute l = CHR ''/'' # join_with ''/'' l"
proof (induction l)
  case Nil
  then show ?case by simp
next
  case (Cons s l)
  then show ?case by (cases l) (simp_all add: absolute_def)
qed

lemma absolute_snoc: "absolute (l @ [t]) = absolute l @ CHR ''/'' # t"
  by (simp add: absolute_def)

lemma absolute_ne: "segs \<noteq> [] \<Longrightarrow> absolute segs \<noteq> []"
  by (simp add: absolute_join)

lemma joined_absolute:
  assumes "segs \<noteq> []"
  shows "join_with ''/'' (filter (\<lambda>x. x \<noteq> []) [absolute segs, ''./img.png''])
           = absolute (segs @ [''.'', ''img.png''])"
proof -
  have "filter (\<lambda>x. x \<noteq> []) [absolute segs, ''./img.png''] = [absolute segs, ''./img.png'']"
    using absolute_ne [OF assms] by simp
  then have "join_with ''/'' (filter (\<lambda>x. x \<noteq> []) [absolute segs, ''./img.png''])
           = absolute segs @ ''/./img.png''"
    by simp
  also have "\<dots> = absolute (segs @ [''.'', ''img.png''])"
    by (simp add: absolute_def)
  finally show ?thesis .
qed

lemma normalizeString_absolute:
  assumes "\<forall>s \<in> set segs. plain s"
  shows "normalizeString (absolute (segs @ [''.'', ''img.png''])) False
           = join_with ''/'' (segs @ [''img.png''])"
proof -
  have noslash: "\<forall>t \<in> set (segs @ [''.'', ''img.png'']). CHR ''/'' \<notin> set t"
    using assms by (auto simp: plain_def)
  have sp: "split ''/'' (absolute (segs @ [''.'', ''img.png''])) = [] # segs @ [''.'', ''img.png'']"
    using split_absolute [OF noslash] .
  have 1: "foldl (norm_step False) [] ([] # segs) = segs"
    using assms by (simp add: foldl_plain norm_step_def)
  have 2: "foldl (norm_step False) segs [''.'', ''img.png''] = segs @ [''img.png'']"
    by (simp add: norm_step_def)
  have "foldl (norm_step False) [] (([] # segs) @ [''.'', ''img.png'']) = segs @ [''img.png'']"
    by (simp only: foldl_append 1 2)
  then show ?thesis
    by (simp add: normalizeString_def sp)
qed

lemma normalize_absolute:
  assumes "segs \<noteq> []" "\<forall>s \<in> set segs. plain s"
  shows "normalize (absolute (segs @ [''.'', ''img.png''])) = absolute segs @ ''/img.png''"
proof -
  let ?p = "absolute (segs @ [''.'', ''img.png''])"
  let ?q = "join_with ''/'' (segs @ [''img.png''])"
  have p: "?p = CHR ''/'' # join_with ''/'' (segs @ [''.'', ''img.png''])"
    by (intro absolute_join) simp
  have p': "?p = (absolute segs @ ''/./img.pn'') @ ''g''"
    by (simp add: absolute_def)
  have pne: "?p \<noteq> []" "hd ?p = CHR ''/''"
    by (simp_all only: p list.sel list.distinct not_False_eq_True)
  have last: "last ?p = CHR ''g''"
    by (simp only: p' last_snoc)
  have q: "CHR ''/'' # ?q = absolute segs @ ''/img.png''"
    using absolute_join [of "segs @ [''img.png'']"] by (simp add: absolute_snoc)
  obtain x where x: "absolute segs = CHR ''/'' # x"
    using absolute_join [OF assms(1)] by blast
  from q have qne: "?q \<noteq> []"
    unfolding x by auto
  have ns: "normalizeString ?p (\<not> hd ?p = CHR ''/'') = ?q"
    using pne(2) normalizeString_absolute [OF assms(2)] by simp
  have "normalize ?p = CHR ''/'' # ?q"
    unfolding normalize_def Let_def ns
    using pne last qne by simp
  with q show ?thesis by simp
qed

lemma path_join_absolute:
  assumes "segs \<noteq> []" "\<forall>s \<in> set segs. plain s"
  shows "path_join (absolute segs) ''./img.png'' = absolute segs @ ''/img.png''"
proof -
  have "absolute (segs @ [''.'', ''img.png'']) \<noteq> []"
    by (simp add: absolute_join)
  then show ?thesis
    unfolding path_join_def Let_def joined_absolute [OF assms(1)]
    by (simp only: normalize_absolute [OF assms] if_False)
qed


lemma example_blocks:
  "makeBlocks_text example_doc = [''0/1\<newline>\<newline>Hello ![a](./img.png)'', ''1/1\<newline>\<newline>World'']"
  unfolding example_doc_def by code_simp

lemma example_matches:
  "match_all ''0/1\<newline>\<newline>Hello ![a](./img.png)'' = [''![a](./img.png)'']"
  "match_all ''1/1\<newline>\<newline>World'' = []"
  "capture_path ''![a](./img.png)'' = Some ''./img.png''"
  "remove_all ''0/1\<newline>\<newline>Hello ![a](./img.png)'' = ''0/1\<newline>\<newline>Hello ''"
  "remove_all ''1/1\<newline>\<newline>World'' = ''1/1\<newline>\<newline>World''"
  by code_simp+

lemma example_extract:
  "extractImage [''0/1\<newline>\<newline>Hello ![a](./img.png)'', ''1/1\<newline>\<newline>World''] dir
     = [\<lparr> text_c = ''0/1\<newline>\<newline>Hello '', images = [path_join dir ''./img.png''] \<rparr>,
        \<lparr> text_c = ''1/1\<newline>\<newline>World'', images = [] \<rparr>]"
  by (simp add: extractImage_def image_paths_def example_matches List.map_filter_simps)

lemma example_contents:
  assumes "files e filename = Some (File f)" "utf8 f = example_doc"
    "resolve_dirname e filename = absolute segs" "segs \<noteq> []" "\<forall>s \<in> set segs. plain s"
  shows "document_contents e filename
     = [\<lparr> text_c = ''0/1\<newline>\<newline>Hello '', images = [absolute segs @ ''/img.png''] \<rparr>,
        \<lparr> text_c = ''1/1\<newline>\<newline>World'', images = [] \<rparr>]"
  using assms(1-3)
  by (simp add: document_contents_def makeBlocks_def readFileSync_def example_blocks
        example_extract path_join_absolute [OF assms(4,5)])

lemma extname_img: "extname (x @ ''/img.png'') = ''.png''"
  by (simp add: extname_def last_component_def)


lemma deliver_idle:
  assumes "i < length (pipes st)"
  shows "deliver srv (deliver srv (deliver srv (deliver srv st i) i) i) i
           = deliver srv (deliver srv (deliver srv st i) i) i"
  using assms by (intro deliver_settled deliver_thrice) simp

lemma single_schedule:
  assumes "length (pipes st) = 1"
  shows "foldl (deliver srv) st (sched @ [0, 0, 0]) = foldl (deliver srv) st [0, 0, 0]"
  using assms
proof (induction sched arbitrary: st)
  case Nil
  then show ?case by simp
next
  case (Cons i sched)
  have len: "length (pipes (deliver srv st i)) = 1"
    using Cons.prems by simp
  show ?case
  proof (cases "i = 0")
    case True
    have "foldl (deliver srv) st ((i # sched) @ [0, 0, 0])
            = foldl (deliver srv) (deliver srv st 0) [0, 0, 0]"
      using Cons.IH [OF len] True by simp
    also have "\<dots> = foldl (deliver srv) st [0, 0, 0]"
      using deliver_idle [of 0 st srv] Cons.prems by simp
    finally show ?thesis .
  next
    case False
    with Cons.prems have "deliver srv st i = st"
      by (intro deliver_out) simp
    with Cons.IH [OF Cons.prems] show ?thesis by simp
  qed
qed

lemma single_upload_run:
  "upload_run srv log sched [d] = upload_run srv log [] [d]"
proof -
  let ?st = "foldl (launch srv) \<lparr> pipes = [], sent = log, rejection = None \<rparr> [d]"
  have d: "drain (length [d]) = [0, 0, 0]"
    by (simp add: drain_def)
  have "length (pipes ?st) = 1"
    by (simp add: launch_def Let_def)
  from single_schedule [OF this, of srv sched] show ?thesis
    unfolding upload_run_def d by (simp only: append_Nil)
qed

lemma single_upload:
  assumes "srv log (MediaInit (total_bytes d) (media_type d)) = Some r1"
    "srv (log @ [MediaInit (total_bytes d) (media_type d)])
         (MediaAppend (media_id_string r1) (media_data d) 0) = Some r2"
    "srv (log @ [MediaInit (total_bytes d) (media_type d),
                 MediaAppend (media_id_string r1) (media_data d) 0])
         (MediaFinalize (media_id_string r1)) = Some r3"
    "\<not> truthy (error_field r3)"
  shows "uploadImages srv log sched [d]
           = (Inr [\<lparr> path_u = path d, mediaId = media_id_string r3 \<rparr>],
              log @ [MediaInit (total_bytes d) (media_type d),
                     MediaAppend (media_id_string r1) (media_data d) 0,
                     MediaFinalize (media_id_string r1)])"
  unfolding uploadImages_def single_upload_run [of srv log sched d]
  using assms
  by (simp add: upload_run_def drain_def launch_def deliver_def advance_def Let_def
        List.map_filter_simps)


text \<open>
  C8: on the document \<^verbatim>\<open>Hello ![a](./img.png)\<close>, \<^verbatim>\<open>---\<close>, \<^verbatim>\<open>World\<close> (a line feed on
  each side of the delimiter), in any directory, with \<^verbatim>\<open>img.png\<close> of 1000 bytes
  there, and a service that accepts every request: the contents are the two of the
  specification, and the run completes having sent one INIT, one APPEND and one
  FINALIZE for the image, then two status updates, the first with the media id of the
  finalize response and no reply target, the second replying to the id returned for
  the first; whatever the order of arrival of the responses.
\<close>

theorem example_thread:
  assumes "active_profile e" "answer e = ''y''"
    "files e filename = Some (File f)" "utf8 f = example_doc"
    "resolve_dirname e filename = absolute segs" "segs \<noteq> []" "\<forall>s \<in> set segs. plain s"
    "files e (absolute segs @ ''/img.png'') = Some (File g)" "byte_length g = 1000"
    "accepts_all srv"
  shows "document_contents e filename
           = [\<lparr> text_c = ''0/1\<newline>\<newline>Hello '', images = [absolute segs @ ''/img.png''] \<rparr>,
              \<lparr> text_c = ''1/1\<newline>\<newline>World'', images = [] \<rparr>]
         \<and> (\<exists>r1 r3 r4 r5.
               srv [] (MediaInit 1000 ''image/png'') = Some r1 \<and>
               srv [MediaInit 1000 ''image/png'', MediaAppend (media_id_string r1) (base64 g) 0]
                   (MediaFinalize (media_id_string r1)) = Some r3 \<and>
               srv [MediaInit 1000 ''image/png'', MediaAppend (media_id_string r1) (base64 g) 0,
                    MediaFinalize (media_id_string r1)]
                   (StatusUpdate ''0/1\<newline>\<newline>Hello '' (media_id_string r3) None) = Some r4 \<and>
               srv [MediaInit 1000 ''image/png'', MediaAppend (media_id_string r1) (base64 g) 0,
                    MediaFinalize (media_id_string r1),
                    StatusUpdate ''0/1\<newline>\<newline>Hello '' (media_id_string r3) None]
                   (StatusUpdate ''1/1\<newline>\<newline>World'' [] (Some (id_str r4))) = Some r5 \<and>
               post_command e srv sched filename
                 = (Completed r5,
                    [MediaInit 1000 ''image/png'',
                     MediaAppend (media_id_string r1) (base64 g) 0,
                     MediaFinalize (media_id_string r1),
                     StatusUpdate ''0/1\<newline>\<newline>Hello '' (media_id_string r3) None,
                     StatusUpdate ''1/1\<newline>\<newline>World'' [] (Some (id_str r4))]))"
proof -
  let ?p = "absolute segs @ ''/img.png''"
  let ?c0 = "\<lparr> text_c = ''0/1\<newline>\<newline>Hello '', images = [?p] \<rparr>"
  let ?c1 = "\<lparr> text_c = ''1/1\<newline>\<newline>World'', images = [] \<rparr>"
  let ?d = "\<lparr> path = ?p, total_bytes = 1000, media_type = ''image/png'', media_data = base64 g \<rparr>"
  have contents: "document_contents e filename = [?c0, ?c1]"
    using assms(3-7) by (rule example_contents)
  have paths: "imagePaths [?c0, ?c1] = [?p]"
    by (simp add: imagePaths_def first_occurrences_def enumerate_eq_zip)
  have prep: "prepare e filename = Inr ([?c0, ?c1], [?d])"
  proof (rule prepare_passes [OF assms(1,3) contents])
    show "lint (map text_c [?c0, ?c1]) = None"
      by (simp add: lint_def lint_block_def)
    show "for_each (checkFileExists e) (imagePaths [?c0, ?c1]) = None"
      unfolding paths using assms(8) by (simp add: checkFileExists_def)
    show "checkImageNumberPerPost [?c0, ?c1] = None"
      by (simp add: checkImageNumberPerPost_def checkContent_def checkImage_def extname_img)
    show "map_throwing (getImagesData e) (imagePaths [?c0, ?c1]) = Inr [?d]"
      unfolding paths using assms(8,9)
      by (simp add: getImagesData_def readFileSync_def extname_img)
    show "for_each checkImageSize [?d] = None"
      by (simp add: checkImageSize_def)
    show "answer e = ''y'' \<or> answer e = ''Y''"
      using assms(2) by simp
  qed
  let ?i = "MediaInit 1000 ''image/png''"
  from assms(10) obtain r1 where r1: "srv [] ?i = Some r1"
    unfolding accepts_all_def by blast
  let ?a = "MediaAppend (media_id_string r1) (base64 g) 0"
  from assms(10) obtain r2 where r2: "srv [?i] ?a = Some r2"
    unfolding accepts_all_def by blast
  let ?f = "MediaFinalize (media_id_string r1)"
  from assms(10) obtain r3 where r3: "srv [?i, ?a] ?f = Some r3" "\<not> truthy (error_field r3)"
    unfolding accepts_all_def by blast
  let ?s0 = "StatusUpdate ''0/1\<newline>\<newline>Hello '' (media_id_string r3) None"
  from assms(10) obtain r4 where r4: "srv [?i, ?a, ?f] ?s0 = Some r4"
    unfolding accepts_all_def by blast
  let ?s1 = "StatusUpdate ''1/1\<newline>\<newline>World'' [] (Some (id_str r4))"
  from assms(10) obtain r5 where r5: "srv [?i, ?a, ?f, ?s0] ?s1 = Some r5"
    unfolding accepts_all_def by blast
  have up: "uploadImages srv [] sched [?d]
              = (Inr [\<lparr> path_u = ?p, mediaId = media_id_string r3 \<rparr>], [?i, ?a, ?f])"
    using single_upload [of srv "[]" ?d r1 r2 r3 sched] r1 r2 r3 by simp
  have pcs: "postContent [\<lparr> path_u = ?p, mediaId = media_id_string r3 \<rparr>] ?c0
               = \<lparr> text_p = ''0/1\<newline>\<newline>Hello '', mediaIds = [Some (media_id_string r3)] \<rparr>"
    "postContent [\<lparr> path_u = ?p, mediaId = media_id_string r3 \<rparr>] ?c1
               = \<lparr> text_p = ''1/1\<newline>\<newline>World'', mediaIds = [] \<rparr>"
    by (simp_all add: postContent_def)
  have post: "post srv [?i, ?a, ?f] (Suc 0)
                [\<lparr> text_p = ''0/1\<newline>\<newline>Hello '', mediaIds = [Some (media_id_string r3)] \<rparr>,
                 \<lparr> text_p = ''1/1\<newline>\<newline>World'', mediaIds = [] \<rparr>]
              = (Inr r5, [?i, ?a, ?f, ?s0, ?s1])"
    using r4 r5 by (simp add: media_ids_def Let_def)
  have "publish srv sched [?c0, ?c1] [?d] = (Completed r5, [?i, ?a, ?f, ?s0, ?s1])"
    unfolding publish_def up using post by (simp add: pcs del: post.simps)
  then have "post_command e srv sched filename = (Completed r5, [?i, ?a, ?f, ?s0, ?s1])"
    by (simp add: post_command_def prep)
  with contents r1 r3(1) r4 r5 show ?thesis by blast
qed


theorem example_thread_witness:
  "post_command example_env fake_server [] ''thread.md''
     = (Completed \<lparr> id_str = ''p4'', media_id_string = ''m4'', error_field = None \<rparr>,
        [MediaInit 1000 ''image/png'', MediaAppend ''m0'' ''iVBORw=='' 0, MediaFinalize ''m0'',
         StatusUpdate ''0/1\<newline>\<newline>Hello '' ''m2'' None,
         StatusUpdate ''1/1\<newline>\<newline>World'' [] (Some ''p3'')])"
proof -
  let ?f = "\<lparr> byte_length = 31, utf8 = example_doc, base64 = [] \<rparr>"
  let ?g = "\<lparr> byte_length = 1000, utf8 = [], base64 = ''iVBORw=='' \<rparr>"
  let ?segs = "[''home'', ''u'', ''thread'']"
  have 1: "active_profile example_env" and 2: "answer example_env = ''y''"
    and 3: "files example_env ''thread.md'' = Some (File ?f)"
    and 5: "resolve_dirname example_env ''thread.md'' = absolute ?segs"
    and 8: "files example_env (absolute ?segs @ ''/img.png'') = Some (File ?g)"
    by (simp_all add: example_env_def absolute_def)
  have 4: "utf8 ?f = example_doc" and 6: "?segs \<noteq> []" and 9: "byte_length ?g = 1000"
    by simp_all
  have 7: "\<forall>s \<in> set ?segs. plain s"
    by (simp add: plain_def)
  have 10: "accepts_all fake_server"
    by (simp add: accepts_all_def fake_server_def truthy_def)
  from example_thread [OF 1 2 3 4 5 6 7 8 9 10, of "[]"]
  obtain r1 r3 r4 r5 where
    r1: "fake_server [] (MediaInit 1000 ''image/png'') = Some r1"
    and r3: "fake_server [MediaInit 1000 ''image/png'',
                          MediaAppend (media_id_string r1) (base64 ?g) 0]
               (MediaFinalize (media_id_string r1)) = Some r3"
    and r4: "fake_server [MediaInit 1000 ''image/png'',
                          MediaAppend (media_id_string r1) (base64 ?g) 0,
                          MediaFinalize (media_id_string r1)]
               (StatusUpdate ''0/1\<newline>\<newline>Hello '' (media_id_string r3) None) = Some r4"
    and r5: "fake_server [MediaInit 1000 ''image/png'',
                          MediaAppend (media_id_string r1) (base64 ?g) 0,
                          MediaFinalize (media_id_string r1),
                          StatusUpdate ''0/1\<newline>\<newline>Hello '' (media_id_string r3) None]
               (StatusUpdate ''1/1\<newline>\<newline>World'' [] (Some (id_str r4))) = Some r5"
    and run: "post_command example_env fake_server [] ''thread.md''
                 = (Completed r5,
                    [MediaInit 1000 ''image/png'',
                     MediaAppend (media_id_string r1) (base64 ?g) 0,
                     MediaFinalize (media_id_string r1),
                     StatusUpdate ''0/1\<newline>\<newline>Hello '' (media_id_string r3) None,
                     StatusUpdate ''1/1\<newline>\<newline>World'' [] (Some (id_str r4))])"
    by blast
  from r1 have "media_id_string r1 = ''m0''"
    by (auto simp: fake_server_def show_nat_small)
  moreover from r3 have "media_id_string r3 = ''m2''"
    by (auto simp: fake_server_def show_nat_small)
  moreover from r4 have "id_str r4 = ''p3''"
    by (auto simp: fake_server_def show_nat_small)
  moreover from r5 have "r5 = \<lparr> id_str = ''p4'', media_id_string = ''m4'', error_field = None \<rparr>"
    by (auto simp: fake_server_def show_nat_small)
  ultimately show ?thesis using run by simp
qed

end
